theory Spec2Isabelle
  imports Main "HOL-Library.Char_ord" "HOL-Library.List_Lexorder" "HOL-Library.Product_Lexorder"
    "HOL-Library.Sublist" "HOL-Library.Multiset"
begin

section \<open>Data model\<close>

text \<open>
  A Python \<open>str\<close> is modelled as a \<open>string\<close> (a list of characters; characters with a
  code above 255 are outside the model). Strings are compared as Python compares them:
  lexicographically, character by character, by character code (\<open>List_Lexorder\<close> over
  \<open>Char_ord\<close>); a proper prefix is smaller.

  A value returned by \<open>json.loads\<close>. A number is kept as its text: no operation of the
  program looks inside one. A dictionary is an association list, looked up with \<open>map_of\<close>.
\<close>

datatype json = JNull | JBool bool | JNum string | JStr string
  | JArr "json list" | JObj "(string \<times> json) list"

text \<open>
  A tree node is the dictionary \<open>{"name", "children", "path", "isFile", "summary"}\<close> of
  \<open>main.py\<close>. The keys \<open>isFile\<close> and \<open>summary\<close> may be absent (the root is created
  without \<open>isFile\<close>; \<open>summary\<close> is attached later), so both are options: \<open>None\<close> is the
  absent key. A summary is what \<open>get_groq_response\<close> returned, which may be any JSON value
  taken from the provider's reply.
\<close>

datatype node = Node (name: string) (children: "node list") (path: string)
  (isFile: "bool option") (summary: "json option")

text \<open>\<open>x.get("isFile", False)\<close> and the truth test \<open>node.get("isFile")\<close>.\<close>

definition get_isFile :: "node \<Rightarrow> bool" where
  "get_isFile x = (case isFile x of None \<Rightarrow> False | Some b \<Rightarrow> b)"

text \<open>
  An input record of \<open>build_hierarchy\<close>: \<open>item["path"]\<close> and \<open>item.get("type")\<close>
  (\<open>None\<close> when the key is absent or its value is not a string; the value is only
  compared with \<open>"blob"\<close>).
\<close>

record item =
  item_path :: string
  item_type :: "string option"

record ChatMessage =
  role :: string
  content :: string

text \<open>
  The exceptions of the program: the \<open>HTTPException\<close> of the web framework, with its
  status code and detail, and the others, which \<open>get_repo\<close> does not tell apart.
  \<open>ClientError\<close> is any exception raised by the HTTP client library (connection failure,
  timeout, undecodable body), with its message.
\<close>

datatype exn = HTTPException nat string | KeyError string | TypeError | AttributeError
  | JSONDecodeError | ClientError string

section \<open>String operations\<close>

text \<open>\<open>str.isspace\<close> of one character, which is also the class \<open>\s\<close> of \<open>re\<close>.\<close>

definition is_space :: "char \<Rightarrow> bool" where
  "is_space c = (of_char c \<in> {9, 10, 11, 12, 13, 28, 29, 30, 31, 32, 133, 160 :: nat})"

definition str_strip :: "string \<Rightarrow> string" where
  "str_strip s = rev (dropWhile is_space (rev (dropWhile is_space s)))"

text \<open>
  \<open>s.replace(old, new)\<close>: every occurrence of \<open>old\<close>, found from the left without
  overlap. With an empty \<open>old\<close>, \<open>new\<close> is put before every character and at the end.
\<close>

function str_replace :: "string \<Rightarrow> string \<Rightarrow> string \<Rightarrow> string" where
  "str_replace old new s =
     (if old = [] then new @ concat (map (\<lambda>c. c # new) s)
      else if s = [] then []
      else if prefix old s then new @ str_replace old new (drop (length old) s)
      else hd s # str_replace old new (tl s))"
  by pat_completeness auto
termination
  by (relation "measure (\<lambda>(old, new, s). length s)") (auto simp: neq_Nil_conv)

text \<open>\<open>s.split(sep)\<close> for a one-character separator: never the empty list.\<close>

fun str_split :: "char \<Rightarrow> string \<Rightarrow> string list" where
  "str_split sep [] = [[]]"
| "str_split sep (c # cs) =
     (if c = sep then [] # str_split sep cs
      else (case str_split sep cs of [] \<Rightarrow> [[c]] | w # ws \<Rightarrow> (c # w) # ws))"

text \<open>\<open>sep.join(xs)\<close>.\<close>

fun str_join :: "string \<Rightarrow> string list \<Rightarrow> string" where
  "str_join sep [] = []"
| "str_join sep [x] = x"
| "str_join sep (x # y # ys) = x @ sep @ str_join sep (y # ys)"

text \<open>The decimal text of a non-negative integer, as an f-string writes a status code.\<close>

function str_nat :: "nat \<Rightarrow> string" where
  "str_nat n =
     (if n < 10 then [char_of (48 + n)] else str_nat (n div 10) @ [char_of (48 + n mod 10)])"
  by pat_completeness auto
termination
  by (relation "measure id") auto

section \<open>parse_github_url\<close>

text \<open>
  The pattern
  \<open>(?:https?:\/\/)?(?:www\.)?github\.com\/(?P<owner>[^\/\s]+)\/(?P<repo>[^\/\s]+)\<close>
  is matched as \<open>re\<close> matches it, by backtracking: a matcher takes the continuation
  that matches the rest of the pattern. An optional part is tried first with the part
  present; \<open>+\<close> takes the longest run first and gives characters back one at a time;
  \<open>re.search\<close> takes the leftmost start at which the pattern matches.
\<close>

definition lit :: "string \<Rightarrow> (string \<Rightarrow> 'a option) \<Rightarrow> string \<Rightarrow> 'a option" where
  "lit p k s = (if prefix p s then k (drop (length p) s) else None)"

definition opt ::
  "((string \<Rightarrow> 'a option) \<Rightarrow> string \<Rightarrow> 'a option) \<Rightarrow> (string \<Rightarrow> 'a option) \<Rightarrow> string \<Rightarrow> 'a option"
where
  "opt r k s = (case r k s of Some x \<Rightarrow> Some x | None \<Rightarrow> k s)"

fun first_some :: "'a option list \<Rightarrow> 'a option" where
  "first_some [] = None"
| "first_some (Some x # xs) = Some x"
| "first_some (None # xs) = first_some xs"

definition seg_char :: "char \<Rightarrow> bool" where
  "seg_char c = (c \<noteq> CHR ''/'' \<and> \<not> is_space c)"

definition seg_plus :: "(string \<Rightarrow> string \<Rightarrow> 'a option) \<Rightarrow> string \<Rightarrow> 'a option" where
  "seg_plus k s =
     first_some (map (\<lambda>i. k (take i s) (drop i s)) (rev [1 ..< Suc (length (takeWhile seg_char s))]))"

definition github_pattern :: "string \<Rightarrow> (string \<times> string) option" where
  "github_pattern =
     opt (\<lambda>k. lit ''http'' (opt (lit ''s'') (lit ''://'' k)))
       (opt (lit ''www.'')
         (lit ''github.com/''
           (seg_plus (\<lambda>owner. lit ''/'' (seg_plus (\<lambda>repo rest. Some (owner, repo)))))))"

definition re_search :: "(string \<Rightarrow> 'a option) \<Rightarrow> string \<Rightarrow> 'a option" where
  "re_search pat s = first_some (map (\<lambda>i. pat (drop i s)) [0 ..< Suc (length s)])"

text \<open>The returned dictionary \<open>{"owner": owner, "repo": repo}\<close> is the pair.\<close>

definition parse_github_url :: "string \<Rightarrow> (string \<times> string) option" where
  "parse_github_url url =
     (if url = [] then None
      else
        (case re_search github_pattern
                (str_replace ''github.com:'' ''github.com/''
                  (str_replace ''git@github.com:'' ''https://github.com/'' (str_strip url))) of
           None \<Rightarrow> None
         | Some (owner, repo) \<Rightarrow> Some (owner, str_replace ''.git'' [] repo)))"

section \<open>build_hierarchy\<close>

text \<open>
  The dictionaries are mutated in place; the model returns the updated tree. The child
  taken by \<open>next((c for c in node["children"] if c["name"] == p), None)\<close> is the first
  one with that name, and the rest of the walk happens inside it.
\<close>

fun map_first :: "('a \<Rightarrow> bool) \<Rightarrow> ('a \<Rightarrow> 'a) \<Rightarrow> 'a list \<Rightarrow> 'a list" where
  "map_first P g [] = []"
| "map_first P g (x # xs) = (if P x then g x # xs else x # map_first P g xs)"

text \<open>
  The inner loop over the remaining segments, from the current node. \<open>blob\<close> is
  \<open>item.get("type") == "blob"\<close>; \<open>i == len(parts) - 1\<close> holds when no segment is left
  after \<open>p\<close>.
\<close>

fun walk :: "string list \<Rightarrow> bool \<Rightarrow> node \<Rightarrow> node" where
  "walk [] blob nd = nd"
| "walk (p # ps) blob nd =
     (case find (\<lambda>c. name c = p) (children nd) of
        Some c \<Rightarrow>
          Node (name nd) (map_first (\<lambda>c. name c = p) (walk ps blob) (children nd))
            (path nd) (isFile nd) (summary nd)
      | None \<Rightarrow>
          Node (name nd)
            (children nd @
              [walk ps blob
                (Node p [] (if path nd \<noteq> [] then path nd @ ''/'' @ p else p)
                   (Some (ps = [] \<and> blob)) None)])
            (path nd) (isFile nd) (summary nd))"

definition parts :: "item \<Rightarrow> string list" where
  "parts it = str_split CHR ''/'' (item_path it)"

definition is_blob :: "item \<Rightarrow> bool" where
  "is_blob it = (item_type it = Some ''blob'')"

definition insert_item :: "node \<Rightarrow> item \<Rightarrow> node" where
  "insert_item root it = walk (parts it) (is_blob it) root"

definition empty_root :: node where
  "empty_root = Node ''/'' [] [] None None"

definition build_hierarchy :: "item list \<Rightarrow> node" where
  "build_hierarchy items = foldl insert_item empty_root items"

section \<open>sort_tree\<close>

text \<open>
  \<open>node["children"].sort(key=lambda x: (not x.get("isFile", False), x["name"]))\<close>:
  the key is a pair, compared lexicographically with \<open>False < True\<close>; Python's sort is
  stable, as \<open>sort_key\<close> is. Every node of the model has the key \<open>children\<close>.
\<close>

definition sort_tree_key :: "node \<Rightarrow> bool \<times> string" where
  "sort_tree_key x = (\<not> get_isFile x, name x)"

fun sort_tree :: "node \<Rightarrow> node" where
  "sort_tree (Node n cs p f s) = Node n (map sort_tree (sort_key sort_tree_key cs)) p f s"

section \<open>Predicates on trees\<close>

text \<open>A property of every node of a tree.\<close>

fun every_node :: "(node \<Rightarrow> bool) \<Rightarrow> node \<Rightarrow> bool" where
  "every_node P (Node n cs p f s) = (P (Node n cs p f s) \<and> (\<forall>c \<in> set cs. every_node P c))"

text \<open>
  The two orders of a children list: directories, then files (what the specification
  states), and files, then directories; in both, names are non-decreasing inside each group.
\<close>

definition dirs_then_files :: "node list \<Rightarrow> bool" where
  "dirs_then_files cs =
     (cs = filter (\<lambda>c. \<not> get_isFile c) cs @ filter get_isFile cs
      \<and> sorted (map name (filter (\<lambda>c. \<not> get_isFile c) cs))
      \<and> sorted (map name (filter get_isFile cs)))"

definition files_then_dirs :: "node list \<Rightarrow> bool" where
  "files_then_dirs cs =
     (cs = filter get_isFile cs @ filter (\<lambda>c. \<not> get_isFile c) cs
      \<and> sorted (map name (filter get_isFile cs))
      \<and> sorted (map name (filter (\<lambda>c. \<not> get_isFile c) cs)))"

text \<open>A file node has no children.\<close>

definition file_childless :: "node \<Rightarrow> bool" where
  "file_childless n = (get_isFile n \<longrightarrow> children n = [])"

text \<open>No two children of a node have the same name.\<close>

definition distinct_names :: "node \<Rightarrow> bool" where
  "distinct_names n = distinct (map name (children n))"

text \<open>The number of file nodes of a tree.\<close>

fun count_files :: "node \<Rightarrow> nat" where
  "count_files (Node n cs p f s) =
     (if get_isFile (Node n cs p f s) then 1 else 0) + sum_list (map count_files cs)"

text \<open>
  No record of type \<open>blob\<close> has a path that is, segment by segment, a proper prefix of
  the path of a record after it in the list.
\<close>

fun no_blob_prefix :: "item list \<Rightarrow> bool" where
  "no_blob_prefix [] = True"
| "no_blob_prefix (a # rest) =
     ((is_blob a \<longrightarrow> (\<forall>b \<in> set rest. \<not> strict_prefix (parts a) (parts b)))
      \<and> no_blob_prefix rest)"

text \<open>
  The positions of the file nodes of a tree: a position is the list of the names on the
  way from the root to the node; the root is at \<open>[]\<close>.
\<close>

fun fpaths :: "node \<Rightarrow> string list set" where
  "fpaths (Node n cs p f s) =
     (if get_isFile (Node n cs p f s) then {[]} else {})
     \<union> (\<Union>c \<in> set cs. (\<lambda>q. name c # q) ` fpaths c)"

text \<open>
  The walk of \<open>build_hierarchy\<close> along the segments finds a child at every step (it
  takes the first child with the name, as the loop does).
\<close>

fun has_path :: "string list \<Rightarrow> node \<Rightarrow> bool" where
  "has_path [] t = True"
| "has_path (p # ps) t =
     (case find (\<lambda>c. name c = p) (children t) of None \<Rightarrow> False | Some c \<Rightarrow> has_path ps c)"

section \<open>The outside world\<close>

text \<open>
  What a request observes of the network is a parameter of the model. \<open>http_get url\<close> is
  the outcome of \<open>session.get(url)\<close> together with the reads the caller makes of the
  response: either an exception of the client library, with its message, or a response
  with its status and body text. The request headers do not appear: they only decide what
  the server answers. \<open>groq_post messages\<close> is the outcome of the POST to the
  completion endpoint. \<open>json_loads\<close> is \<open>json.loads\<close> (\<open>None\<close> when it raises),
  \<open>json_dumps\<close> is \<open>json.dumps\<close>, and \<open>py_str\<close> is the text an f-string writes
  for a JSON value that is not a string.
\<close>

record http_response =
  resp_status :: nat
  resp_text :: string

record env =
  http_get :: "string \<Rightarrow> string + http_response"
  groq_post :: "ChatMessage list \<Rightarrow> string + http_response"
  json_loads :: "string \<Rightarrow> json option"
  json_dumps :: "json \<Rightarrow> string"
  py_str :: "json \<Rightarrow> string"
  GROQ_API_KEY :: "string option"

text \<open>
  A coroutine is modelled by the network calls it makes, in a log, and its outcome: a
  raised exception or a returned value.
\<close>

datatype event = FetchJson string | FetchText string | GroqPost "ChatMessage list"

type_synonym 'a io = "event list \<times> (exn + 'a)"

definition return_io :: "'a \<Rightarrow> 'a io" where
  "return_io x = ([], Inr x)"

definition lift_io :: "exn + 'a \<Rightarrow> 'a io" where
  "lift_io r = ([], r)"

definition bind_io :: "'a io \<Rightarrow> ('a \<Rightarrow> 'b io) \<Rightarrow> 'b io" where
  "bind_io m f =
     (case m of
        (l, Inl e) \<Rightarrow> (l, Inl e)
      | (l, Inr x) \<Rightarrow> (case f x of (l', r) \<Rightarrow> (l @ l', r)))"

text \<open>
  \<open>asyncio.gather\<close>: every coroutine is started, and the first exception is raised to
  the caller. The model runs them in the order of the list, so the log does not show how
  the calls of different coroutines interleave, and of several exceptions the one of the
  earliest coroutine in the list is taken.
\<close>

fun collect :: "(exn + 'a) list \<Rightarrow> exn + 'a list" where
  "collect [] = Inr []"
| "collect (Inl e # rs) = Inl e"
| "collect (Inr x # rs) = (case collect rs of Inl e \<Rightarrow> Inl e | Inr xs \<Rightarrow> Inr (x # xs))"

definition gather :: "'a io list \<Rightarrow> 'a list io" where
  "gather ms = (concat (map fst ms), collect (map snd ms))"

section \<open>The HTTP clients\<close>

text \<open>The detail \<open>f"HTTP {response.status} from {url}: {text[:300]}"\<close>.\<close>

definition http_detail :: "string \<Rightarrow> http_response \<Rightarrow> string" where
  "http_detail url response =
     ''HTTP '' @ str_nat (resp_status response) @ '' from '' @ url @ '': ''
       @ take 300 (resp_text response)"

definition fetch_json :: "env \<Rightarrow> string \<Rightarrow> json io" where
  "fetch_json env url =
     ([FetchJson url],
      case http_get env url of
        Inl msg \<Rightarrow> Inl (ClientError msg)
      | Inr response \<Rightarrow>
          if resp_status response \<ge> 400 then
            Inl (HTTPException (resp_status response) (http_detail url response))
          else (case json_loads env (resp_text response) of
                  None \<Rightarrow> Inl JSONDecodeError
                | Some v \<Rightarrow> Inr v))"

text \<open>
  \<open>fetch_text\<close> returns Python's \<open>None\<close>, the option \<open>None\<close>, for a status other than
  200, without reading the body.
\<close>

definition fetch_text :: "env \<Rightarrow> string \<Rightarrow> string option io" where
  "fetch_text env url =
     ([FetchText url],
      case http_get env url of
        Inl msg \<Rightarrow> Inl (ClientError msg)
      | Inr response \<Rightarrow>
          if resp_status response \<noteq> 200 then Inr None
          else Inr (Some (resp_text response)))"

text \<open>\<open>v[k]\<close> for a string \<open>k\<close>, \<open>v[0]\<close>, \<open>v.get(k, d)\<close> and \<open>for t in v\<close>.\<close>

definition subscript :: "json \<Rightarrow> string \<Rightarrow> exn + json" where
  "subscript v k =
     (case v of
        JObj kvs \<Rightarrow> (case map_of kvs k of None \<Rightarrow> Inl (KeyError k) | Some x \<Rightarrow> Inr x)
      | _ \<Rightarrow> Inl TypeError)"

definition subscript2 :: "json \<Rightarrow> string \<Rightarrow> string \<Rightarrow> exn + json" where
  "subscript2 v k1 k2 = (case subscript v k1 of Inl e \<Rightarrow> Inl e | Inr x \<Rightarrow> subscript x k2)"

definition subscript0 :: "json \<Rightarrow> json option" where
  "subscript0 v =
     (case v of
        JArr (x # xs) \<Rightarrow> Some x
      | JStr (c # cs) \<Rightarrow> Some (JStr [c])
      | _ \<Rightarrow> None)"

definition dict_get :: "json \<Rightarrow> string \<Rightarrow> json \<Rightarrow> exn + json" where
  "dict_get v k d =
     (case v of
        JObj kvs \<Rightarrow> Inr (case map_of kvs k of None \<Rightarrow> d | Some x \<Rightarrow> x)
      | _ \<Rightarrow> Inl AttributeError)"

definition iterate :: "json \<Rightarrow> exn + json list" where
  "iterate v =
     (case v of
        JArr xs \<Rightarrow> Inr xs
      | JObj kvs \<Rightarrow> Inr (map (\<lambda>kv. JStr (fst kv)) kvs)
      | JStr s \<Rightarrow> Inr (map (\<lambda>c. JStr [c]) s)
      | _ \<Rightarrow> Inl TypeError)"

text \<open>What an f-string writes for a value.\<close>

definition format_value :: "env \<Rightarrow> json \<Rightarrow> string" where
  "format_value env v = (case v of JStr s \<Rightarrow> s | _ \<Rightarrow> py_str env v)"

definition groq_sentinel :: string where
  "groq_sentinel = ''GROQ API key not configured (server).''"

text \<open>
  \<open>not GROQ_API_KEY\<close> holds for an unset variable and for an empty one. Every exception
  of \<open>data["choices"][0]["message"]["content"]\<close> is caught.
\<close>

definition get_groq_response :: "env \<Rightarrow> ChatMessage list \<Rightarrow> json io" where
  "get_groq_response env messages =
     (if GROQ_API_KEY env = None \<or> GROQ_API_KEY env = Some [] then
        return_io (JStr groq_sentinel)
      else
        ([GroqPost messages],
         case groq_post env messages of
           Inl msg \<Rightarrow> Inl (ClientError msg)
         | Inr response \<Rightarrow>
             if resp_status response \<noteq> 200 then
               Inr (JStr (''Error generating response: '' @ str_nat (resp_status response)
                          @ '' - '' @ take 400 (resp_text response)))
             else (case json_loads env (resp_text response) of
                     None \<Rightarrow> Inl JSONDecodeError
                   | Some data \<Rightarrow>
                       (case Option.bind (Option.bind (Option.bind
                               (case subscript data ''choices'' of Inl e \<Rightarrow> None | Inr x \<Rightarrow> Some x)
                               subscript0)
                               (\<lambda>x. case subscript x ''message'' of Inl e \<Rightarrow> None | Inr y \<Rightarrow> Some y))
                               (\<lambda>x. case subscript x ''content'' of Inl e \<Rightarrow> None | Inr y \<Rightarrow> Some y) of
                          Some c \<Rightarrow> Inr c
                        | None \<Rightarrow> Inr (JStr (take 1000 (json_dumps env data)))))))"

section \<open>generate_summaries and collect_summaries\<close>

definition fetch_failed_summary :: string where
  "fetch_failed_summary = ''Could not fetch file content.''"

definition raw_host :: string where
  "raw_host = ''https://raw.githubusercontent.com/''"

definition raw_url :: "env \<Rightarrow> string \<Rightarrow> string \<Rightarrow> json \<Rightarrow> node \<Rightarrow> string" where
  "raw_url env owner repo branch_sha nd =
     raw_host @ owner @ ''/'' @ repo @ ''/'' @ format_value env branch_sha @ ''/'' @ path nd"

definition summary_prompt :: "node \<Rightarrow> string \<Rightarrow> string" where
  "summary_prompt nd txt =
     ''Provide a concise summary of this code file for software engineers. Highlight key functions, imports, and architecture. File: ''
       @ path nd @ [CHR 0x0A, CHR 0x0A] @ txt"

definition set_summary :: "node \<Rightarrow> json \<Rightarrow> node" where
  "set_summary nd v = Node (name nd) (children nd) (path nd) (isFile nd) (Some v)"

text \<open>
  The semaphore does not change what a coroutine computes; it is modelled apart, in the
  section on the tasks. \<open>if txt\<close> fails for \<open>None\<close> and for the empty text.
\<close>

fun generate_summaries :: "env \<Rightarrow> node \<Rightarrow> string \<Rightarrow> string \<Rightarrow> json \<Rightarrow> node io" where
  "generate_summaries env (Node n cs p f s) owner repo branch_sha =
     (if get_isFile (Node n cs p f s) then
        bind_io (fetch_text env (raw_url env owner repo branch_sha (Node n cs p f s)))
          (\<lambda>txt.
             case txt of
               None \<Rightarrow> return_io (set_summary (Node n cs p f s) (JStr fetch_failed_summary))
             | Some t \<Rightarrow>
                 if t \<noteq> [] then
                   bind_io
                     (get_groq_response env
                        [\<lparr>role = ''user'', content = summary_prompt (Node n cs p f s) t\<rparr>])
                     (\<lambda>r. return_io (set_summary (Node n cs p f s) r))
                 else return_io (set_summary (Node n cs p f s) (JStr fetch_failed_summary)))
      else
        bind_io (gather (map (\<lambda>c. generate_summaries env c owner repo branch_sha) cs))
          (\<lambda>cs'. return_io (Node n cs' p f s)))"

fun traverse :: "env \<Rightarrow> node \<Rightarrow> string list" where
  "traverse env (Node n cs p f s) =
     (if get_isFile (Node n cs p f s) then
        [''File: '' @ p @ [CHR 0x0A] @ ''Summary: ''
           @ (case s of None \<Rightarrow> ''N/A'' | Some v \<Rightarrow> format_value env v) @ [CHR 0x0A]]
      else [])
     @ concat (map (traverse env) cs)"

definition collect_summaries :: "env \<Rightarrow> node \<Rightarrow> string" where
  "collect_summaries env nd = str_join [CHR 0x0A] (traverse env nd)"

section \<open>get_repo\<close>

text \<open>
  The list comprehension over the listing: the condition \<open>t["type"] in ("blob", "tree")\<close>
  is evaluated first, then \<open>t["path"]\<close>; the first exception ends it. A selected entry
  is the pair of its path and its type.
\<close>

definition blob_or_tree :: "json \<Rightarrow> bool" where
  "blob_or_tree ty = (ty = JStr ''blob'' \<or> ty = JStr ''tree'')"

fun select_blobs :: "json list \<Rightarrow> exn + (json \<times> json) list" where
  "select_blobs [] = Inr []"
| "select_blobs (t # ts) =
     (case subscript t ''type'' of
        Inl e \<Rightarrow> Inl e
      | Inr ty \<Rightarrow>
          if blob_or_tree ty then
            (case subscript t ''path'' of
               Inl e \<Rightarrow> Inl e
             | Inr pa \<Rightarrow>
                 (case select_blobs ts of Inl e \<Rightarrow> Inl e | Inr bs \<Rightarrow> Inr ((pa, ty) # bs)))
          else select_blobs ts)"

text \<open>
  \<open>build_hierarchy\<close> calls \<open>item["path"].split("/")\<close>, which raises for a path that
  is not a string.
\<close>

fun to_items :: "(json \<times> json) list \<Rightarrow> exn + item list" where
  "to_items [] = Inr []"
| "to_items ((JStr pa, ty) # bs) =
     (case to_items bs of
        Inl e \<Rightarrow> Inl e
      | Inr its \<Rightarrow>
          Inr (\<lparr>item_path = pa, item_type = (case ty of JStr s \<Rightarrow> Some s | _ \<Rightarrow> None)\<rparr> # its))"
| "to_items ((_, ty) # bs) = Inl AttributeError"

record repo_result =
  tree :: node
  summaries :: string
  repo :: string
  fileCount :: nat

definition api :: string where
  "api = ''https://api.github.com/repos/''"

text \<open>
  Lines 159 to 166 of \<open>get_repo\<close>: from the parsed tree listing to the returned
  dictionary. The variable \<open>repo\<close> is written \<open>rp\<close>, since \<open>repo\<close> is a key of that
  dictionary.
\<close>

definition summarize_tree :: "env \<Rightarrow> string \<Rightarrow> string \<Rightarrow> json \<Rightarrow> json \<Rightarrow> repo_result io" where
  "summarize_tree env owner rp tree_sha tree_resp =
     bind_io (lift_io (dict_get tree_resp ''tree'' (JArr []))) (\<lambda>listing.
     bind_io (lift_io (iterate listing)) (\<lambda>entries.
     bind_io (lift_io (select_blobs entries)) (\<lambda>blobs.
     bind_io (lift_io (to_items blobs)) (\<lambda>items.
     bind_io (generate_summaries env (build_hierarchy items) owner rp tree_sha) (\<lambda>root.
     return_io
       \<lparr>tree = sort_tree root,
        summaries = collect_summaries env (sort_tree root),
        repo = owner @ ''/'' @ rp,
        fileCount = length blobs\<rparr>)))))"

text \<open>
  Lines 149 to 158 of \<open>get_repo\<close>: the four metadata calls, each on the result of the
  one before.
\<close>

definition fetch_tree :: "env \<Rightarrow> string \<Rightarrow> string \<Rightarrow> repo_result io" where
  "fetch_tree env owner rp =
     bind_io (fetch_json env (api @ owner @ ''/'' @ rp)) (\<lambda>repo_meta.
     bind_io (lift_io (dict_get repo_meta ''default_branch'' (JStr ''main''))) (\<lambda>default_branch.
     bind_io (fetch_json env
                (api @ owner @ ''/'' @ rp @ ''/git/refs/heads/'' @ format_value env default_branch))
       (\<lambda>ref.
     bind_io (lift_io (subscript2 ref ''object'' ''sha'')) (\<lambda>commit_sha.
     bind_io (fetch_json env
                (api @ owner @ ''/'' @ rp @ ''/git/commits/'' @ format_value env commit_sha))
       (\<lambda>commit_obj.
     bind_io (lift_io (subscript2 commit_obj ''tree'' ''sha'')) (\<lambda>tree_sha.
     bind_io (fetch_json env
                (api @ owner @ ''/'' @ rp @ ''/git/trees/'' @ format_value env tree_sha
                  @ ''?recursive=1''))
       (\<lambda>tree_resp. summarize_tree env owner rp tree_sha tree_resp)))))))"

text \<open>
  The response of the endpoint: the returned dictionary, sent with status 200, or the
  status and detail of the \<open>HTTPException\<close> that leaves \<open>get_repo\<close>. The detail of
  the handler for other exceptions is \<open>str(e)\<close>, which is left as it is.
\<close>

datatype detail = Detail string | StrOf exn

datatype api_response = Response200 repo_result | ErrorResponse nat detail

fun status_of :: "api_response \<Rightarrow> nat" where
  "status_of (Response200 r) = 200"
| "status_of (ErrorResponse st d) = st"

definition get_repo :: "env \<Rightarrow> string \<Rightarrow> event list \<times> api_response" where
  "get_repo env url =
     (case parse_github_url url of
        None \<Rightarrow> ([], ErrorResponse 400 (Detail ''Invalid GitHub URL''))
      | Some (owner, rp) \<Rightarrow>
          (case fetch_tree env owner rp of
             (l, Inr r) \<Rightarrow> (l, Response200 r)
           | (l, Inl (HTTPException st d)) \<Rightarrow> (l, ErrorResponse st (Detail d))
           | (l, Inl e) \<Rightarrow> (l, ErrorResponse 500 (StrOf e))))"

section \<open>A stubbed hosting API\<close>

text \<open>
  A repository \<open>foo/bar\<close> with the directory \<open>src\<close>, the file \<open>src/main.py\<close> and the
  file \<open>README.md\<close>; the bodies of the responses are names that \<open>stub_loads\<close> maps to
  their JSON values. \<open>stub_env raw\<close> answers every raw-content fetch with \<open>raw\<close>.
\<close>

definition stub_get :: "http_response \<Rightarrow> string \<Rightarrow> string + http_response" where
  "stub_get raw url =
     (if url = ''https://api.github.com/repos/foo/bar'' then
        Inr \<lparr>resp_status = 200, resp_text = ''META''\<rparr>
      else if url = ''https://api.github.com/repos/foo/bar/git/refs/heads/main'' then
        Inr \<lparr>resp_status = 200, resp_text = ''REF''\<rparr>
      else if url = ''https://api.github.com/repos/foo/bar/git/commits/c1'' then
        Inr \<lparr>resp_status = 200, resp_text = ''COMMIT''\<rparr>
      else if url = ''https://api.github.com/repos/foo/bar/git/trees/t1?recursive=1'' then
        Inr \<lparr>resp_status = 200, resp_text = ''TREE''\<rparr>
      else if prefix raw_host url then Inr raw
      else Inr \<lparr>resp_status = 404, resp_text = ''Not Found''\<rparr>)"

definition stub_loads :: "string \<Rightarrow> json option" where
  "stub_loads s =
     (if s = ''META'' then Some (JObj [(''default_branch'', JStr ''main'')])
      else if s = ''REF'' then Some (JObj [(''object'', JObj [(''sha'', JStr ''c1'')])])
      else if s = ''COMMIT'' then Some (JObj [(''tree'', JObj [(''sha'', JStr ''t1'')])])
      else if s = ''TREE'' then
        Some (JObj [(''tree'',
          JArr [JObj [(''path'', JStr ''src''), (''type'', JStr ''tree'')],
                JObj [(''path'', JStr ''src/main.py''), (''type'', JStr ''blob'')],
                JObj [(''path'', JStr ''README.md''), (''type'', JStr ''blob'')]])])
      else None)"

definition stub_env :: "http_response \<Rightarrow> env" where
  "stub_env raw =
     \<lparr>http_get = stub_get raw,
      groq_post = (\<lambda>messages. Inl ''no provider''),
      json_loads = stub_loads,
      json_dumps = (\<lambda>v. []),
      py_str = (\<lambda>v. []),
      GROQ_API_KEY = None\<rparr>"

section \<open>Notions used in the statements\<close>

text \<open>
  The environment in which the raw-content fetches chosen by \<open>bad\<close> fail: a URL of the
  raw-content host for which \<open>bad\<close> gives a response with a status other than 200 is
  answered with that response, every other request as before.
\<close>

definition fail_raw :: "env \<Rightarrow> (string \<Rightarrow> http_response option) \<Rightarrow> env" where
  "fail_raw env bad =
     env\<lparr>http_get := (\<lambda>u. case bad u of
                           None \<Rightarrow> http_get env u
                         | Some r \<Rightarrow>
                             if prefix raw_host u \<and> resp_status r \<noteq> 200 then Inr r
                             else http_get env u)\<rparr>"

text \<open>An entry of the tree listing is a dictionary whose \<open>type\<close> is the given string.\<close>

definition entry_has_type :: "string \<Rightarrow> json \<Rightarrow> bool" where
  "entry_has_type ty t = (subscript t ''type'' = Inr (JStr ty))"

text \<open>
  \<open>entries\<close> is the recursive tree listing of the request: what the iteration over
  \<open>tree_resp.get("tree", [])\<close> yields, for the parsed body \<open>tree_resp\<close> of the response
  to the call \<open>.../git/trees/{tree_sha}?recursive=1\<close> of the parsed repository.
\<close>

definition tree_listing :: "env \<Rightarrow> string \<Rightarrow> json list \<Rightarrow> bool" where
  "tree_listing env url entries =
     (\<exists>owner rp tree_sha response tree_resp listing.
        parse_github_url url = Some (owner, rp)
        \<and> http_get env (api @ owner @ ''/'' @ rp @ ''/git/trees/'' @ format_value env tree_sha
                          @ ''?recursive=1'') = Inr response
        \<and> json_loads env (resp_text response) = Some tree_resp
        \<and> dict_get tree_resp ''tree'' (JArr []) = Inr listing
        \<and> iterate listing = Inr entries)"

text \<open>
  Two notions for the proofs. A coroutine returns (it does not raise). The log of a
  coroutine accounts for its \<open>HTTPException\<close>: a logged \<open>fetch_json\<close> call that was
  answered with a status of 400 or more has ended the coroutine with the exception of that
  status, and an \<open>HTTPException\<close> comes from such a call.
\<close>

definition returns :: "'a io \<Rightarrow> bool" where
  "returns m = (case snd m of Inl e \<Rightarrow> False | Inr x \<Rightarrow> True)"

definition sound :: "env \<Rightarrow> 'a io \<Rightarrow> bool" where
  "sound env m =
     ((\<forall>u response. FetchJson u \<in> set (fst m) \<and> http_get env u = Inr response
          \<and> 400 \<le> resp_status response
        \<longrightarrow> snd m = Inl (HTTPException (resp_status response) (http_detail u response)))
      \<and> (\<forall>st d. snd m = Inl (HTTPException st d)
        \<longrightarrow> (\<exists>u response. FetchJson u \<in> set (fst m) \<and> http_get env u = Inr response
              \<and> 400 \<le> resp_status response \<and> st = resp_status response)))"

section \<open>The tasks of generate_summaries and the semaphore\<close>

text \<open>
  \<open>asyncio.gather\<close> runs one coroutine per file node. A file coroutine is at one of
  these points: before \<open>async with semaphore\<close> (\<open>Unvisited\<close>); inside it, in
  \<open>fetch_text\<close> (\<open>Fetching\<close>); after it, in \<open>get_groq_response\<close>
  (\<open>Summarizing\<close>); returned, with the summary assigned (\<open>Summarized\<close>); or left by
  an exception (\<open>Failed\<close>). The semaphore is its counter of free slots: entering
  \<open>async with\<close> needs a free slot and takes it, leaving it (by return or by exception)
  gives the slot back. A step of the system is a step of one coroutine.
\<close>

datatype phase = Unvisited | Fetching | Summarizing | Summarized | Failed

record pipeline =
  free :: nat
  phases :: "phase list"

definition move :: "pipeline \<Rightarrow> nat \<Rightarrow> phase \<Rightarrow> nat \<Rightarrow> pipeline" where
  "move s i ph fr = \<lparr>free = fr, phases = (phases s)[i := ph]\<rparr>"

inductive step :: "pipeline \<Rightarrow> pipeline \<Rightarrow> bool" where
  acquire:
    "i < length (phases s) \<Longrightarrow> phases s ! i = Unvisited \<Longrightarrow> 0 < free s
      \<Longrightarrow> step s (move s i Fetching (free s - 1))"
| fetched_text:
    "i < length (phases s) \<Longrightarrow> phases s ! i = Fetching
      \<Longrightarrow> step s (move s i Summarizing (free s + 1))"
| fetched_nothing:
    "i < length (phases s) \<Longrightarrow> phases s ! i = Fetching
      \<Longrightarrow> step s (move s i Summarized (free s + 1))"
| fetch_raised:
    "i < length (phases s) \<Longrightarrow> phases s ! i = Fetching
      \<Longrightarrow> step s (move s i Failed (free s + 1))"
| llm_returned:
    "i < length (phases s) \<Longrightarrow> phases s ! i = Summarizing
      \<Longrightarrow> step s (move s i Summarized (free s))"
| llm_raised:
    "i < length (phases s) \<Longrightarrow> phases s ! i = Summarizing
      \<Longrightarrow> step s (move s i Failed (free s))"

text \<open>\<open>asyncio.Semaphore(6)\<close>, and the state when \<open>gather\<close> starts \<open>n\<close> file coroutines.\<close>

definition capacity :: nat where
  "capacity = 6"

definition start :: "nat \<Rightarrow> nat \<Rightarrow> pipeline" where
  "start c n = \<lparr>free = c, phases = replicate n Unvisited\<rparr>"

definition in_flight :: "pipeline \<Rightarrow> nat" where
  "in_flight s = length (filter (\<lambda>ph. ph = Fetching) (phases s))"

section \<open>Properties of build_hierarchy\<close>

lemma walk_sel [simp]:
  "name (walk ps b t) = name t" "path (walk ps b t) = path t"
  "isFile (walk ps b t) = isFile t" "summary (walk ps b t) = summary t"
  by (cases ps; simp split: option.splits)+

lemma get_isFile_walk [simp]: "get_isFile (walk ps b t) = get_isFile t"
  by (simp add: get_isFile_def)

lemma get_isFile_Node [simp]: "get_isFile (Node n cs p f s) = (f = Some True)"
  by (auto simp: get_isFile_def split: option.splits)

lemma get_isFile_iff: "get_isFile t = (isFile t = Some True)"
  by (cases t) simp

lemma every_node_iff:
  "every_node P t \<longleftrightarrow> P t \<and> (\<forall>c \<in> set (children t). every_node P c)"
  by (cases t) simp

lemma set_map_first:
  "find P xs = Some c \<Longrightarrow> set (map_first P g xs) \<subseteq> insert (g c) (set xs)"
  by (induction xs) (auto split: if_splits)

lemma map_first_id:
  "find P xs = Some c \<Longrightarrow> g c = c \<Longrightarrow> map_first P g xs = xs"
  by (induction xs) (auto split: if_splits)

lemma find_in_set: "find P xs = Some c \<Longrightarrow> c \<in> set xs \<and> P c"
  by (induction xs) (auto split: if_splits)

lemma fpaths_mem:
  "q \<in> fpaths t \<longleftrightarrow>
     (q = [] \<and> get_isFile t) \<or> (\<exists>d \<in> set (children t). \<exists>q'. q = name d # q' \<and> q' \<in> fpaths d)"
  by (cases t) auto

lemma children_walk_Cons:
  "children (walk (p # ps) b t) =
     (case find (\<lambda>c. name c = p) (children t) of
        Some c \<Rightarrow> map_first (\<lambda>c. name c = p) (walk ps b) (children t)
      | None \<Rightarrow> children t @
          [walk ps b (Node p [] (if path t \<noteq> [] then path t @ ''/'' @ p else p)
             (Some (ps = [] \<and> b)) None)])"
  by (simp split: option.splits)

declare walk.simps(2) [simp del]

lemma child_walk_cases:
  assumes "d \<in> set (children (walk (p # ps) b t))"
  shows "d \<in> set (children t)
    \<or> (\<exists>c \<in> set (children t). name c = p \<and> d = walk ps b c)
    \<or> (find (\<lambda>c. name c = p) (children t) = None \<and>
        d = walk ps b (Node p [] (if path t \<noteq> [] then path t @ ''/'' @ p else p)
             (Some (ps = [] \<and> b)) None))"
proof (cases "find (\<lambda>c. name c = p) (children t)")
  case None
  with assms show ?thesis by (auto simp: children_walk_Cons)
next
  case (Some c)
  with assms set_map_first[OF Some, of "walk ps b"] find_in_set[OF Some] show ?thesis
    by (auto simp: children_walk_Cons)
qed

lemma fpaths_walk:
  "fpaths (walk ps b t) \<subseteq> fpaths t \<union> (if b then {ps} else {})"
proof (induction ps arbitrary: t)
  case Nil
  then show ?case by simp
next
  case (Cons p ps)
  show ?case
  proof
    fix q assume "q \<in> fpaths (walk (p # ps) b t)"
    then consider "q = []" "get_isFile t"
      | d q' where "d \<in> set (children (walk (p # ps) b t))" "q = name d # q'" "q' \<in> fpaths d"
      using fpaths_mem[of q "walk (p # ps) b t"] by auto
    then show "q \<in> fpaths t \<union> (if b then {p # ps} else {})"
    proof cases
      case 1
      then show ?thesis using fpaths_mem[of q t] by simp
    next
      case 2
      from child_walk_cases[OF 2(1)] show ?thesis
      proof (elim disjE bexE conjE)
        assume "d \<in> set (children t)"
        with 2 show ?thesis using fpaths_mem[of q t] by auto
      next
        fix c assume c: "c \<in> set (children t)" "name c = p" "d = walk ps b c"
        with 2 Cons.IH[of c] have "q' \<in> fpaths c \<or> (b \<and> q' = ps)" by (auto split: if_splits)
        then show ?thesis using c 2 fpaths_mem[of q t] by auto
      next
        assume d: "d = walk ps b (Node p [] (if path t \<noteq> [] then path t @ ''/'' @ p else p)
             (Some (ps = [] \<and> b)) None)"
        have "fpaths d \<subseteq> (if b then {ps} else {})"
          unfolding d
          using Cons.IH[of "Node p [] (if path t \<noteq> [] then path t @ ''/'' @ p else p) (Some (ps = [] \<and> b)) None"]
          by (auto split: if_splits)
        with 2 d show ?thesis by (auto split: if_splits)
      qed
    qed
  qed
qed

lemma walk_file_childless:
  "every_node file_childless t \<Longrightarrow> (\<forall>q \<in> fpaths t. \<not> strict_prefix q ps)
     \<Longrightarrow> every_node file_childless (walk ps b t)"
proof (induction ps arbitrary: t)
  case Nil
  then show ?case by simp
next
  case (Cons p ps)
  from Cons.prems(2) have nf: "\<not> get_isFile t"
    using fpaths_mem[of "[]" t] by auto
  from Cons.prems(1) have ch: "\<forall>c \<in> set (children t). every_node file_childless c"
    by (subst (asm) every_node_iff) simp
  have "every_node file_childless d" if "d \<in> set (children (walk (p # ps) b t))" for d
    using child_walk_cases[OF that]
  proof (elim disjE bexE conjE)
    assume "d \<in> set (children t)"
    with ch show ?thesis by simp
  next
    fix c assume c: "c \<in> set (children t)" "name c = p" "d = walk ps b c"
    have "\<forall>q \<in> fpaths c. \<not> strict_prefix q ps"
    proof
      fix q assume "q \<in> fpaths c"
      with c have "p # q \<in> fpaths t" using fpaths_mem[of "p # q" t] by auto
      with Cons.prems(2) show "\<not> strict_prefix q ps" by fastforce
    qed
    with ch c show ?thesis by (auto intro: Cons.IH)
  next
    assume d: "d = walk ps b (Node p [] (if path t \<noteq> [] then path t @ ''/'' @ p else p)
             (Some (ps = [] \<and> b)) None)"
    show ?thesis unfolding d
      by (rule Cons.IH) (auto simp: file_childless_def)
  qed
  with nf show ?case
    by (subst every_node_iff) (simp add: file_childless_def)
qed

lemma foldl_file_childless:
  "every_node file_childless t \<Longrightarrow> (\<forall>q \<in> fpaths t. \<forall>b \<in> set items. \<not> strict_prefix q (parts b))
    \<Longrightarrow> no_blob_prefix items \<Longrightarrow> every_node file_childless (foldl insert_item t items)"
proof (induction items arbitrary: t)
  case Nil
  then show ?case by simp
next
  case (Cons a items)
  have 1: "every_node file_childless (insert_item t a)"
    unfolding insert_item_def using Cons.prems by (intro walk_file_childless) auto
  have 2: "\<forall>q \<in> fpaths (insert_item t a). \<forall>b \<in> set items. \<not> strict_prefix q (parts b)"
  proof (intro ballI)
    fix q b assume q: "q \<in> fpaths (insert_item t a)" and b: "b \<in> set items"
    from q fpaths_walk[of "parts a" "is_blob a" t]
    have "q \<in> fpaths t \<or> (is_blob a \<and> q = parts a)"
      by (auto simp: insert_item_def split: if_splits)
    then show "\<not> strict_prefix q (parts b)"
      using Cons.prems(2,3) b by auto
  qed
  from Cons.prems(3) have 3: "no_blob_prefix items" by simp
  from Cons.IH[OF 1 2 3] show ?case by simp
qed

lemma foldl_root [simp]:
  "path (foldl insert_item t items) = path t" "isFile (foldl insert_item t items) = isFile t"
  "name (foldl insert_item t items) = name t"
  by (induction items arbitrary: t) (simp_all add: insert_item_def)


lemma node_collapse: "Node (name t) (children t) (path t) (isFile t) (summary t) = t"
  by (cases t) simp

lemma walk_has_path_id: "has_path ps t \<Longrightarrow> walk ps b t = t"
proof (induction ps arbitrary: t)
  case Nil
  then show ?case by simp
next
  case (Cons p ps)
  then obtain c where c: "find (\<lambda>c. name c = p) (children t) = Some c" "has_path ps c"
    by (auto split: option.splits)
  with Cons.IH have "walk ps b c = c" by simp
  with c show ?case
    by (simp add: walk.simps(2) map_first_id node_collapse)
qed

lemma find_map_first_same:
  "find P xs = Some c \<Longrightarrow> P (g c) \<Longrightarrow> find P (map_first P g xs) = Some (g c)"
  by (induction xs) (auto split: if_splits)

lemma find_map_first_other:
  "(\<And>x. Q (g x) = Q x) \<Longrightarrow> (\<And>x. P x \<Longrightarrow> \<not> Q x) \<Longrightarrow> find Q (map_first P g xs) = find Q xs"
  by (induction xs) auto

lemma find_append_new:
  "find P xs = None \<Longrightarrow> P y \<Longrightarrow> find P (xs @ [y]) = Some y"
  by (induction xs) (auto split: if_splits)

lemma find_append_old:
  "find P xs = Some c \<Longrightarrow> find P (xs @ ys) = Some c"
  by (induction xs) (auto split: if_splits)

lemma has_path_walk_self: "has_path ps (walk ps b t)"
proof (induction ps arbitrary: t)
  case Nil
  then show ?case by simp
next
  case (Cons p ps)
  show ?case
  proof (cases "find (\<lambda>c. name c = p) (children t)")
    case None
    then show ?thesis
      using Cons.IH by (simp add: children_walk_Cons find_append_new)
  next
    case (Some c)
    with find_in_set[OF Some] show ?thesis
      using Cons.IH by (simp add: children_walk_Cons find_map_first_same)
  qed
qed

lemma has_path_walk_mono: "has_path qs t \<Longrightarrow> has_path qs (walk ps b t)"
proof (induction ps arbitrary: t qs)
  case Nil
  then show ?case by simp
next
  case (Cons p ps)
  show ?case
  proof (cases qs)
    case Nil
    then show ?thesis by simp
  next
    case qs: (Cons q qs')
    with Cons.prems obtain d where d: "find (\<lambda>c. name c = q) (children t) = Some d" "has_path qs' d"
      by (auto split: option.splits)
    show ?thesis
    proof (cases "find (\<lambda>c. name c = p) (children t)")
      case None
      with d show ?thesis
        by (simp add: qs children_walk_Cons find_append_old)
    next
      case (Some c)
      show ?thesis
      proof (cases "q = p")
        case True
        with d Some have "d = c" by simp
        with d Some True find_in_set[OF Some] Cons.IH[of qs' c] show ?thesis
          by (simp add: qs children_walk_Cons find_map_first_same)
      next
        case False
        have "find (\<lambda>c. name c = q) (map_first (\<lambda>c. name c = p) (walk ps b) (children t))
            = find (\<lambda>c. name c = q) (children t)"
          by (rule find_map_first_other) (use False in auto)
        with d Some show ?thesis
          by (simp add: qs children_walk_Cons)
      qed
    qed
  qed
qed

lemma has_path_foldl: "has_path qs t \<Longrightarrow> has_path qs (foldl insert_item t items)"
  by (induction items arbitrary: t) (simp_all add: insert_item_def has_path_walk_mono)

lemma build_hierarchy_append:
  "build_hierarchy (xs @ ys) = foldl insert_item (build_hierarchy xs) ys"
  by (simp add: build_hierarchy_def)

lemma insert_item_again:
  assumes "parts r' = parts r"
  shows "insert_item (foldl insert_item (insert_item t r) ys) r' = foldl insert_item (insert_item t r) ys"
proof -
  have "has_path (parts r) (insert_item t r)"
    by (simp add: insert_item_def has_path_walk_self)
  then have "has_path (parts r') (foldl insert_item (insert_item t r) ys)"
    using assms by (simp add: has_path_foldl)
  then show ?thesis
    by (simp add: insert_item_def walk_has_path_id)
qed

lemma map_name_map_first:
  "(\<And>x. name (g x) = name x) \<Longrightarrow> map name (map_first P g xs) = map name xs"
  by (induction xs) auto

lemma walk_distinct_names:
  "every_node distinct_names t \<Longrightarrow> every_node distinct_names (walk ps b t)"
proof (induction ps arbitrary: t)
  case Nil
  then show ?case by simp
next
  case (Cons p ps)
  from Cons.prems have t: "distinct (map name (children t))"
    and ch: "\<forall>c \<in> set (children t). every_node distinct_names c"
    by (subst (asm) every_node_iff; simp add: distinct_names_def)+
  have 1: "every_node distinct_names d" if "d \<in> set (children (walk (p # ps) b t))" for d
    using child_walk_cases[OF that]
  proof (elim disjE bexE conjE)
    assume "d \<in> set (children t)"
    with ch show ?thesis by simp
  next
    fix c assume "c \<in> set (children t)" "name c = p" "d = walk ps b c"
    with ch show ?thesis by (auto intro: Cons.IH)
  next
    assume d: "d = walk ps b (Node p [] (if path t \<noteq> [] then path t @ ''/'' @ p else p)
             (Some (ps = [] \<and> b)) None)"
    show ?thesis unfolding d
      by (rule Cons.IH) (simp add: distinct_names_def)
  qed
  have 2: "distinct (map name (children (walk (p # ps) b t)))"
  proof (cases "find (\<lambda>c. name c = p) (children t)")
    case None
    then have "p \<notin> set (map name (children t))"
      by (auto simp: find_None_iff)
    with t None show ?thesis
      by (simp add: children_walk_Cons)
  next
    case (Some c)
    with t show ?thesis
      by (simp add: children_walk_Cons map_name_map_first)
  qed
  from 1 2 show ?case
    by (subst every_node_iff) (simp add: distinct_names_def)
qed

lemma foldl_distinct_names:
  "every_node distinct_names t \<Longrightarrow> every_node distinct_names (foldl insert_item t items)"
  by (induction items arbitrary: t) (simp_all add: insert_item_def walk_distinct_names)

lemma count_files_iff:
  "count_files t = (if get_isFile t then 1 else 0) + sum_list (map count_files (children t))"
  by (cases t) simp

lemma sum_map_first_le:
  "find P xs = Some c \<Longrightarrow> f (g c) \<le> f c + (k::nat)
     \<Longrightarrow> sum_list (map f (map_first P g xs)) \<le> sum_list (map f xs) + k"
  by (induction xs) (auto split: if_splits)

lemma count_files_walk:
  "count_files (walk ps b t) \<le> count_files t + (if b then 1 else 0)"
proof (induction ps arbitrary: t)
  case Nil
  then show ?case by simp
next
  case (Cons p ps)
  have "sum_list (map count_files (children (walk (p # ps) b t)))
      \<le> sum_list (map count_files (children t)) + (if b then 1 else 0)"
  proof (cases "find (\<lambda>c. name c = p) (children t)")
    case None
    have "count_files (walk ps b (Node p [] (if path t \<noteq> [] then path t @ ''/'' @ p else p)
             (Some (ps = [] \<and> b)) None)) \<le> (if b then 1 else 0)"
    proof (cases ps)
      case Nil
      then show ?thesis by simp
    next
      case (Cons a list)
      with Cons.IH[of "Node p [] (if path t \<noteq> [] then path t @ ''/'' @ p else p)
             (Some (ps = [] \<and> b)) None"] show ?thesis by simp
    qed
    with None show ?thesis
      by (simp add: children_walk_Cons)
  next
    case (Some c)
    from sum_map_first_le[OF Some, of count_files "walk ps b", OF Cons.IH] Some
    show ?thesis by (simp add: children_walk_Cons)
  qed
  then show ?case
    by (subst (1 2) count_files_iff) simp
qed

lemma count_files_foldl:
  "count_files (foldl insert_item t items) \<le> count_files t + length (filter is_blob items)"
proof (induction items arbitrary: t)
  case Nil
  then show ?case by simp
next
  case (Cons a items)
  have "count_files (foldl insert_item (insert_item t a) items)
     \<le> count_files (insert_item t a) + length (filter is_blob items)"
    by (rule Cons.IH)
  also have "count_files (insert_item t a) \<le> count_files t + (if is_blob a then 1 else 0)"
    by (simp add: insert_item_def count_files_walk)
  finally show ?case by (simp split: if_splits)
qed

lemma count_files_build:
  "count_files (build_hierarchy items) \<le> length (filter is_blob items)"
  using count_files_foldl[of empty_root items]
  by (simp add: build_hierarchy_def empty_root_def)

lemma count_files_sort_tree [simp]: "count_files (sort_tree t) = count_files t"
proof (induction t)
  case (Node n cs p f s)
  have "sum_list (map count_files (map sort_tree (sort_key sort_tree_key cs)))
      = sum_list (map count_files (sort_key sort_tree_key cs))"
    using Node by (intro arg_cong[where f=sum_list]) simp
  also have "\<dots> = sum_mset (image_mset count_files (mset (sort_key sort_tree_key cs)))"
    by (metis sum_mset_sum_list mset_map)
  also have "\<dots> = sum_list (map count_files cs)"
    by (simp flip: sum_mset_sum_list mset_map)
  finally show ?case by simp
qed

text \<open>
  C3 (as the code has it). For every input list, the root of the tree returned by
  \<open>build_hierarchy\<close> has \<open>path = ""\<close> and no \<open>isFile\<close> key; and every node with
  \<open>isFile\<close> true has an empty children list when no record of type \<open>blob\<close> has a path
  that is, by whole segments, a proper prefix of the path of a record later in the list.
\<close>

theorem build_hierarchy_root_and_files:
  "path (build_hierarchy items) = [] \<and> isFile (build_hierarchy items) = None
    \<and> (no_blob_prefix items \<longrightarrow> every_node file_childless (build_hierarchy items))"
  unfolding build_hierarchy_def
  by (auto intro!: foldl_file_childless simp: empty_root_def file_childless_def get_isFile_def)

theorem build_hierarchy_root_and_files_witness:
  "no_blob_prefix
     [\<lparr>item_path = ''src'', item_type = Some ''tree''\<rparr>,
      \<lparr>item_path = ''src/main.py'', item_type = Some ''blob''\<rparr>,
      \<lparr>item_path = ''README.md'', item_type = Some ''blob''\<rparr>]
   \<and> every_node file_childless (build_hierarchy
     [\<lparr>item_path = ''src'', item_type = Some ''tree''\<rparr>,
      \<lparr>item_path = ''src/main.py'', item_type = Some ''blob''\<rparr>,
      \<lparr>item_path = ''README.md'', item_type = Some ''blob''\<rparr>])"
proof -
  have h: "no_blob_prefix
     [\<lparr>item_path = ''src'', item_type = Some ''tree''\<rparr>,
      \<lparr>item_path = ''src/main.py'', item_type = Some ''blob''\<rparr>,
      \<lparr>item_path = ''README.md'', item_type = Some ''blob''\<rparr>]"
    by code_simp
  with build_hierarchy_root_and_files
     [of "[\<lparr>item_path = ''src'', item_type = Some ''tree''\<rparr>,
      \<lparr>item_path = ''src/main.py'', item_type = Some ''blob''\<rparr>,
      \<lparr>item_path = ''README.md'', item_type = Some ''blob''\<rparr>]"]
  show ?thesis by blast
qed

text \<open>
  C3 as stated fails: after the blob \<open>a\<close>, the blob \<open>a/b.txt\<close> finds the file node
  \<open>a\<close> and appends a child to it.
\<close>

theorem build_hierarchy_file_with_child_counterexample:
  "build_hierarchy
     [\<lparr>item_path = ''a'', item_type = Some ''blob''\<rparr>,
      \<lparr>item_path = ''a/b.txt'', item_type = Some ''blob''\<rparr>]
     = Node ''/''
         [Node ''a'' [Node ''b.txt'' [] ''a/b.txt'' (Some True) None] ''a'' (Some True) None]
         [] None None
   \<and> \<not> every_node file_childless (build_hierarchy
     [\<lparr>item_path = ''a'', item_type = Some ''blob''\<rparr>,
      \<lparr>item_path = ''a/b.txt'', item_type = Some ''blob''\<rparr>])"
  by code_simp

text \<open>
  C8. A record whose path is the path of a record earlier in the list changes nothing:
  the tree built from the list equals the tree built from the list without the later
  record (whatever the types of the two records), and no node of the tree has two
  children of the same name.
\<close>

theorem build_hierarchy_duplicate_path:
  assumes "item_path r' = item_path r"
  shows "build_hierarchy (xs @ r # ys @ r' # zs) = build_hierarchy (xs @ r # ys @ zs)
    \<and> every_node distinct_names (build_hierarchy (xs @ r # ys @ r' # zs))"
proof -
  from assms have "parts r' = parts r"
    by (simp add: parts_def)
  from insert_item_again[OF this]
  have "build_hierarchy (xs @ r # ys @ r' # zs) = build_hierarchy (xs @ r # ys @ zs)"
    by (simp add: build_hierarchy_def)
  moreover have "every_node distinct_names (build_hierarchy (xs @ r # ys @ r' # zs))"
    unfolding build_hierarchy_def
    by (rule foldl_distinct_names) (simp add: empty_root_def distinct_names_def)
  ultimately show ?thesis by simp
qed

theorem build_hierarchy_duplicate_path_witness:
  "build_hierarchy
     ([\<lparr>item_path = ''src/a.py'', item_type = Some ''blob''\<rparr>]
      @ \<lparr>item_path = ''docs/x.md'', item_type = Some ''blob''\<rparr>
      # [\<lparr>item_path = ''src/b.py'', item_type = Some ''blob''\<rparr>]
      @ \<lparr>item_path = ''docs/x.md'', item_type = Some ''blob''\<rparr>
      # [\<lparr>item_path = ''LICENSE'', item_type = Some ''blob''\<rparr>])
   = build_hierarchy
     ([\<lparr>item_path = ''src/a.py'', item_type = Some ''blob''\<rparr>]
      @ \<lparr>item_path = ''docs/x.md'', item_type = Some ''blob''\<rparr>
      # [\<lparr>item_path = ''src/b.py'', item_type = Some ''blob''\<rparr>]
      @ [\<lparr>item_path = ''LICENSE'', item_type = Some ''blob''\<rparr>])"
  using build_hierarchy_duplicate_path
    [of "\<lparr>item_path = ''docs/x.md'', item_type = Some ''blob''\<rparr>"
        "\<lparr>item_path = ''docs/x.md'', item_type = Some ''blob''\<rparr>"
        "[\<lparr>item_path = ''src/a.py'', item_type = Some ''blob''\<rparr>]"
        "[\<lparr>item_path = ''src/b.py'', item_type = Some ''blob''\<rparr>]"
        "[\<lparr>item_path = ''LICENSE'', item_type = Some ''blob''\<rparr>]"]
  by simp

section \<open>Properties of sort_tree\<close>

lemma key_le_iff:
  "sort_tree_key x \<le> sort_tree_key y \<longleftrightarrow>
     (get_isFile x \<and> \<not> get_isFile y) \<or> (get_isFile x = get_isFile y \<and> name x \<le> name y)"
  by (auto simp: sort_tree_key_def less_eq_prod_def)

lemma sorted_key_names:
  "sorted (map sort_tree_key xs) \<Longrightarrow> (\<And>x. x \<in> set xs \<Longrightarrow> P x \<Longrightarrow> get_isFile x = b)
     \<Longrightarrow> sorted (map name (filter P xs))"
proof (induction xs)
  case Nil
  then show ?case by simp
next
  case (Cons x xs)
  then show ?case by (auto simp: key_le_iff)
qed

lemma sorted_key_partition:
  "sorted (map sort_tree_key xs) \<Longrightarrow>
     xs = filter get_isFile xs @ filter (\<lambda>c. \<not> get_isFile c) xs"
proof (induction xs)
  case Nil
  then show ?case by simp
next
  case (Cons x xs)
  show ?case
  proof (cases "get_isFile x")
    case True
    with Cons show ?thesis by simp
  next
    case False
    with Cons.prems have "\<forall>y \<in> set xs. \<not> get_isFile y"
      by (auto simp: key_le_iff)
    then have "filter get_isFile xs = []" "filter (\<lambda>c. \<not> get_isFile c) xs = xs"
      by (simp_all add: filter_empty_conv filter_id_conv)
    with False show ?thesis by simp
  qed
qed

lemma sorted_key_files_then_dirs:
  "sorted (map sort_tree_key xs) \<Longrightarrow> files_then_dirs xs"
  unfolding files_then_dirs_def
  using sorted_key_partition[of xs] sorted_key_names[of xs get_isFile True]
    sorted_key_names[of xs "\<lambda>c. \<not> get_isFile c" False]
  by auto

lemma sort_tree_sel [simp]:
  "name (sort_tree t) = name t" "get_isFile (sort_tree t) = get_isFile t"
  by (cases t; simp add: get_isFile_def)+

lemma filter_map_sort_tree:
  "filter get_isFile (map sort_tree xs) = map sort_tree (filter get_isFile xs)"
  "filter (\<lambda>c. \<not> get_isFile c) (map sort_tree xs) =
     map sort_tree (filter (\<lambda>c. \<not> get_isFile c) xs)"
  by (simp_all add: filter_map comp_def)

lemma files_then_dirs_map_sort_tree:
  assumes "files_then_dirs xs"
  shows "files_then_dirs (map sort_tree xs)"
proof -
  from assms have "xs = filter get_isFile xs @ filter (\<lambda>c. \<not> get_isFile c) xs"
    by (simp add: files_then_dirs_def)
  then have "map sort_tree xs =
      map sort_tree (filter get_isFile xs) @ map sort_tree (filter (\<lambda>c. \<not> get_isFile c) xs)"
    by (metis map_append)
  moreover from assms have "sorted (map name (filter get_isFile xs))"
    "sorted (map name (filter (\<lambda>c. \<not> get_isFile c) xs))"
    by (simp_all add: files_then_dirs_def)
  ultimately show ?thesis
    unfolding files_then_dirs_def filter_map_sort_tree by (simp add: comp_def)
qed

text \<open>
  C1 (as the code has it). After \<open>sort_tree\<close>, in the children list of every node of the
  tree all children with \<open>isFile\<close> true come first and all other children (directories)
  after them, and inside each of the two groups the names are in non-decreasing
  lexicographic order: the sort key is \<open>(not isFile, name)\<close>, and \<open>False < True\<close>.
\<close>

theorem sort_tree_files_then_dirs:
  "every_node (\<lambda>n. files_then_dirs (children n)) (sort_tree t)"
proof (induction t)
  case (Node n cs p f s)
  have "files_then_dirs (sort_key sort_tree_key cs)"
    by (rule sorted_key_files_then_dirs) simp
  with Node show ?case
    by (auto simp: files_then_dirs_map_sort_tree)
qed

theorem sort_tree_files_then_dirs_witness:
  "every_node (\<lambda>n. files_then_dirs (children n))
     (sort_tree (build_hierarchy
        [\<lparr>item_path = ''src/main.py'', item_type = Some ''blob''\<rparr>,
         \<lparr>item_path = ''src/a.py'', item_type = Some ''blob''\<rparr>,
         \<lparr>item_path = ''README.md'', item_type = Some ''blob''\<rparr>]))"
  using sort_tree_files_then_dirs
    [of "build_hierarchy
        [\<lparr>item_path = ''src/main.py'', item_type = Some ''blob''\<rparr>,
         \<lparr>item_path = ''src/a.py'', item_type = Some ''blob''\<rparr>,
         \<lparr>item_path = ''README.md'', item_type = Some ''blob''\<rparr>]"]
  by simp

text \<open>
  C1 as the specification states it (directories before files) fails: the tree built from
  the file \<open>src/main.py\<close> and the file \<open>README.md\<close> has the root children
  \<open>src\<close> (a directory) and \<open>README.md\<close> (a file); \<open>sort_tree\<close> puts the file first.
\<close>

theorem sort_tree_dirs_first_counterexample:
  "sort_tree (build_hierarchy
        [\<lparr>item_path = ''src/main.py'', item_type = Some ''blob''\<rparr>,
         \<lparr>item_path = ''README.md'', item_type = Some ''blob''\<rparr>])
     = Node ''/''
         [Node ''README.md'' [] ''README.md'' (Some True) None,
          Node ''src'' [Node ''main.py'' [] ''src/main.py'' (Some True) None] ''src''
            (Some False) None]
         [] None None
   \<and> \<not> every_node (\<lambda>n. dirs_then_files (children n))
       (sort_tree (build_hierarchy
        [\<lparr>item_path = ''src/main.py'', item_type = Some ''blob''\<rparr>,
         \<lparr>item_path = ''README.md'', item_type = Some ''blob''\<rparr>]))"
  by code_simp

section \<open>Properties of the clients, of generate_summaries and of get_repo\<close>

lemma fst_bind_io: "fst (bind_io m f) = fst m @ (case snd m of Inl e \<Rightarrow> [] | Inr x \<Rightarrow> fst (f x))"
  by (cases m; cases "snd m") (auto simp: bind_io_def split: prod.splits)

lemma snd_bind_io: "snd (bind_io m f) = (case snd m of Inl e \<Rightarrow> Inl e | Inr x \<Rightarrow> snd (f x))"
  by (cases m; cases "snd m") (auto simp: bind_io_def split: prod.splits)

lemma bind_io_Inr:
  "bind_io m f = (l, Inr y) \<longleftrightarrow> (\<exists>l1 x l2. m = (l1, Inr x) \<and> f x = (l2, Inr y) \<and> l = l1 @ l2)"
  by (cases m; cases "snd m") (auto simp: bind_io_def split: prod.splits)

lemma bind_lift_io:
  "bind_io (lift_io r) f = (case r of Inl e \<Rightarrow> ([], Inl e) | Inr x \<Rightarrow> f x)"
  by (cases r) (auto simp: bind_io_def lift_io_def split: prod.splits)

lemma gen_file:
  "get_isFile nd \<Longrightarrow> generate_summaries env nd owner rp sha =
     bind_io (fetch_text env (raw_url env owner rp sha nd))
       (\<lambda>txt. case txt of
            None \<Rightarrow> return_io (set_summary nd (JStr fetch_failed_summary))
          | Some t \<Rightarrow>
              if t \<noteq> [] then
                bind_io (get_groq_response env [\<lparr>role = ''user'', content = summary_prompt nd t\<rparr>])
                  (\<lambda>r. return_io (set_summary nd r))
              else return_io (set_summary nd (JStr fetch_failed_summary)))"
  by (cases nd; hypsubst_thin) (simp del: get_isFile_Node)

lemma gen_dir:
  "\<not> get_isFile nd \<Longrightarrow> generate_summaries env nd owner rp sha =
     bind_io (gather (map (\<lambda>c. generate_summaries env c owner rp sha) (children nd)))
       (\<lambda>cs'. return_io (Node (name nd) cs' (path nd) (isFile nd) (summary nd)))"
  by (cases nd; hypsubst_thin) (simp del: get_isFile_Node)

declare generate_summaries.simps [simp del]

lemma collect_insert:
  "collect (as @ Inr x # bs) =
     (case collect (as @ bs) of
        Inl e \<Rightarrow> Inl e
      | Inr zs \<Rightarrow> Inr (take (length as) zs @ x # drop (length as) zs))"
proof (induction as)
  case Nil
  then show ?case by (simp split: sum.splits)
next
  case (Cons a as)
  then show ?case by (cases a) (auto split: sum.splits)
qed


lemma sound_fetch_json: "sound env (fetch_json env u)"
  by (auto simp: sound_def fetch_json_def http_detail_def split: sum.splits option.splits)

lemma sound_quiet:
  "\<forall>u. FetchJson u \<notin> set (fst m) \<Longrightarrow> \<forall>st d. snd m \<noteq> Inl (HTTPException st d) \<Longrightarrow> sound env m"
  by (simp add: sound_def)

lemma sound_bind: "sound env m \<Longrightarrow> (\<And>x. sound env (f x)) \<Longrightarrow> sound env (bind_io m f)"
  unfolding sound_def fst_bind_io snd_bind_io
  by (cases "snd m") (auto, blast+)


lemma subscript_no_http: "subscript v k \<noteq> Inl (HTTPException st d)"
  by (simp add: subscript_def split: json.splits option.splits)

lemma subscript2_no_http: "subscript2 v k1 k2 \<noteq> Inl (HTTPException st d)"
  using subscript_no_http[of v k1 st d]
  by (auto simp: subscript2_def subscript_no_http split: sum.splits)

lemma dict_get_no_http: "dict_get v k x \<noteq> Inl (HTTPException st d)"
  by (simp add: dict_get_def split: json.splits)

lemma iterate_no_http: "iterate v \<noteq> Inl (HTTPException st d)"
  by (simp add: iterate_def split: json.splits)

lemma select_blobs_no_http: "select_blobs ts \<noteq> Inl (HTTPException st d)"
  by (induction ts) (auto simp: subscript_no_http split: sum.splits)

lemma to_items_no_http: "to_items bs \<noteq> Inl (HTTPException st d)"
  by (induction bs rule: to_items.induct) (auto split: sum.splits)

lemma sound_lift: "(\<And>st d. r \<noteq> Inl (HTTPException st d)) \<Longrightarrow> sound env (lift_io r)"
  by (simp add: sound_def lift_io_def)

lemma sound_return: "sound env (return_io x)"
  by (simp add: sound_def return_io_def)

lemma collect_Inl: "collect rs = Inl e \<Longrightarrow> Inl e \<in> set rs"
  by (induction rs rule: collect.induct) (auto split: sum.splits)

lemma fetch_text_quiet:
  "FetchJson u \<notin> set (fst (fetch_text env url))" "snd (fetch_text env url) \<noteq> Inl (HTTPException st d)"
  by (auto simp: fetch_text_def split: sum.splits)

lemma groq_quiet:
  "FetchJson u \<notin> set (fst (get_groq_response env ms))"
  "snd (get_groq_response env ms) \<noteq> Inl (HTTPException st d)"
  by (auto simp: get_groq_response_def return_io_def split: sum.splits option.splits)

lemma gen_quiet:
  "FetchJson u \<notin> set (fst (generate_summaries env t owner rp sha))
   \<and> snd (generate_summaries env t owner rp sha) \<noteq> Inl (HTTPException st d)"
proof (induction t)
  case (Node n cs p f s)
  show ?case
  proof (cases "get_isFile (Node n cs p f s)")
    case True
    show ?thesis
      unfolding gen_file[OF True] fst_bind_io snd_bind_io
      by (auto simp: fetch_text_quiet groq_quiet return_io_def fst_bind_io snd_bind_io
          split: sum.splits option.splits)
  next
    case False
    have "snd (gather (map (\<lambda>c. generate_summaries env c owner rp sha) cs)) \<noteq> Inl (HTTPException st d)"
    proof
      assume "snd (gather (map (\<lambda>c. generate_summaries env c owner rp sha) cs)) = Inl (HTTPException st d)"
      then have "Inl (HTTPException st d) \<in> set (map snd (map (\<lambda>c. generate_summaries env c owner rp sha) cs))"
        unfolding gather_def snd_conv by (rule collect_Inl)
      then obtain c where "c \<in> set cs"
        "snd (generate_summaries env c owner rp sha) = Inl (HTTPException st d)"
        by force
      with Node[of c] show False by simp
    qed
    moreover have "FetchJson u \<notin> set (fst (gather (map (\<lambda>c. generate_summaries env c owner rp sha) cs)))"
      using Node by (auto simp: gather_def)
    ultimately show ?thesis
      unfolding gen_dir[OF False] fst_bind_io snd_bind_io
      by (auto simp: return_io_def split: sum.splits)
  qed
qed

lemma sound_gen: "sound env (generate_summaries env t owner rp sha)"
  by (rule sound_quiet) (simp_all add: gen_quiet)

lemma sound_summarize_tree: "sound env (summarize_tree env owner rp sha tree_resp)"
  unfolding summarize_tree_def
  by (intro sound_bind sound_lift sound_gen sound_return dict_get_no_http iterate_no_http
      select_blobs_no_http to_items_no_http)

lemma sound_fetch_tree: "sound env (fetch_tree env owner rp)"
  unfolding fetch_tree_def
  by (intro sound_bind sound_lift sound_fetch_json sound_summarize_tree dict_get_no_http
      subscript2_no_http)

lemma get_repo_cases:
  "get_repo env url =
     (case parse_github_url url of
        None \<Rightarrow> ([], ErrorResponse 400 (Detail ''Invalid GitHub URL''))
      | Some (owner, rp) \<Rightarrow>
          (fst (fetch_tree env owner rp),
           case snd (fetch_tree env owner rp) of
             Inr r \<Rightarrow> Response200 r
           | Inl (HTTPException st d) \<Rightarrow> ErrorResponse st (Detail d)
           | Inl e \<Rightarrow> ErrorResponse 500 (StrOf e)))"
  by (auto simp: get_repo_def split: option.splits prod.splits sum.splits exn.splits)


lemma fail_raw_fields [simp]:
  "groq_post (fail_raw env bad) = groq_post env"
  "json_loads (fail_raw env bad) = json_loads env"
  "json_dumps (fail_raw env bad) = json_dumps env"
  "py_str (fail_raw env bad) = py_str env"
  "GROQ_API_KEY (fail_raw env bad) = GROQ_API_KEY env"
  by (simp_all add: fail_raw_def)

lemma fail_raw_format [simp]: "format_value (fail_raw env bad) = format_value env"
  by (rule ext) (simp add: format_value_def cong: json.case_cong)

lemma fail_raw_groq [simp]: "get_groq_response (fail_raw env bad) = get_groq_response env"
  by (rule ext) (simp add: get_groq_response_def split: sum.splits option.splits)

lemma fail_raw_raw_url [simp]: "raw_url (fail_raw env bad) = raw_url env"
  by (intro ext) (simp add: raw_url_def)

lemma fail_raw_api [simp]: "http_get (fail_raw env bad) (api @ x) = http_get env (api @ x)"
  by (simp add: fail_raw_def api_def raw_host_def split: option.splits)

lemma fail_raw_fetch_json [simp]: "fetch_json (fail_raw env bad) (api @ x) = fetch_json env (api @ x)"
  by (simp add: fetch_json_def split: sum.splits option.splits)

lemma fail_raw_get:
  "http_get (fail_raw env bad) u = http_get env u
    \<or> (\<exists>r. http_get (fail_raw env bad) u = Inr r \<and> resp_status r \<noteq> 200)"
  by (auto simp: fail_raw_def split: option.splits)

lemma returns_iff: "returns m \<longleftrightarrow> (\<exists>x. snd m = Inr x)"
  by (cases "snd m") (simp_all add: returns_def)

lemma returns_bind_return: "returns (bind_io m (\<lambda>x. return_io (h x))) = returns m"
  by (cases "snd m") (simp_all add: returns_def snd_bind_io return_io_def)

lemma collect_Inr_iff: "(\<exists>xs. collect rs = Inr xs) \<longleftrightarrow> (\<forall>r \<in> set rs. \<exists>x. r = Inr x)"
proof (induction rs rule: collect.induct)
  case 1
  then show ?case by simp
next
  case (2 e rs)
  then show ?case by auto
next
  case (3 x rs)
  then show ?case by (cases "collect rs") auto
qed

lemma returns_gather: "returns (gather ms) \<longleftrightarrow> (\<forall>m \<in> set ms. returns m)"
proof -
  have "returns (gather ms) \<longleftrightarrow> (\<exists>xs. collect (map snd ms) = Inr xs)"
    by (simp add: returns_iff gather_def)
  also have "\<dots> \<longleftrightarrow> (\<forall>r \<in> set (map snd ms). \<exists>x. r = Inr x)"
    by (rule collect_Inr_iff)
  also have "\<dots> \<longleftrightarrow> (\<forall>m \<in> set ms. returns m)"
    by (simp add: returns_iff)
  finally show ?thesis .
qed

lemma returns_bind_mono:
  "returns (bind_io m f) \<Longrightarrow> (\<And>x. returns (f x) \<Longrightarrow> returns (g x)) \<Longrightarrow> returns (bind_io m g)"
proof (cases "snd m")
  case (Inl e)
  assume "returns (bind_io m f)"
  with Inl show ?thesis by (simp add: returns_def snd_bind_io)
next
  case (Inr x)
  assume "returns (bind_io m f)" and h: "\<And>x. returns (f x) \<Longrightarrow> returns (g x)"
  with Inr have "returns (f x)" by (simp add: returns_def snd_bind_io)
  from h[OF this] Inr show ?thesis by (simp add: returns_def snd_bind_io)
qed

lemma fetch_text_fail_raw:
  "snd (fetch_text (fail_raw env bad) u) = snd (fetch_text env u)
    \<or> snd (fetch_text (fail_raw env bad) u) = Inr None"
  using fail_raw_get[of env bad u]
  by (auto simp: fetch_text_def split: sum.splits)

lemma gen_fail_raw:
  "returns (generate_summaries env t owner rp sha)
    \<Longrightarrow> returns (generate_summaries (fail_raw env bad) t owner rp sha)"
proof (induction t)
  case (Node n cs p f s)
  show ?case
  proof (cases "get_isFile (Node n cs p f s)")
    case True
    let ?u = "raw_url env owner rp sha (Node n cs p f s)"
    from fetch_text_fail_raw[of env bad ?u] show ?thesis
    proof
      assume "snd (fetch_text (fail_raw env bad) ?u) = snd (fetch_text env ?u)"
      then have "snd (generate_summaries (fail_raw env bad) (Node n cs p f s) owner rp sha)
          = snd (generate_summaries env (Node n cs p f s) owner rp sha)"
        by (simp add: gen_file[OF True] snd_bind_io split: sum.splits option.splits)
      with Node.prems show ?thesis by (simp add: returns_def)
    next
      assume "snd (fetch_text (fail_raw env bad) ?u) = Inr None"
      then show ?thesis
        by (simp add: gen_file[OF True] snd_bind_io returns_def return_io_def)
    qed
  next
    case False
    from Node.prems have "\<forall>c \<in> set cs. returns (generate_summaries env c owner rp sha)"
      unfolding gen_dir[OF False] returns_bind_return returns_gather by simp
    with Node.IH have "\<forall>c \<in> set cs. returns (generate_summaries (fail_raw env bad) c owner rp sha)"
      by blast
    then show ?thesis
      unfolding gen_dir[OF False] returns_bind_return returns_gather by simp
  qed
qed

lemma summarize_tree_fail_raw:
  "returns (summarize_tree env owner rp sha tree_resp)
    \<Longrightarrow> returns (summarize_tree (fail_raw env bad) owner rp sha tree_resp)"
  unfolding summarize_tree_def
  apply (erule returns_bind_mono)+
  apply (simp only: returns_bind_return gen_fail_raw)
  done

lemma fetch_tree_fail_raw:
  "returns (fetch_tree env owner rp) \<Longrightarrow> returns (fetch_tree (fail_raw env bad) owner rp)"
  unfolding fetch_tree_def fail_raw_fetch_json fail_raw_format
  apply (erule returns_bind_mono)+
  apply (rule summarize_tree_fail_raw)
  apply assumption
  done

lemma get_repo_200: "status_of (snd (get_repo env url)) = 200 \<longleftrightarrow>
   (\<exists>owner rp. parse_github_url url = Some (owner, rp) \<and> returns (fetch_tree env owner rp))"
proof (cases "parse_github_url url")
  case None
  then show ?thesis by (simp add: get_repo_cases)
next
  case (Some a)
  obtain owner rp where a: "a = (owner, rp)" by (cases a)
  show ?thesis
  proof (cases "snd (fetch_tree env owner rp)")
    case (Inr r)
    with Some a show ?thesis by (simp add: get_repo_cases returns_def)
  next
    case (Inl e)
    show ?thesis
    proof (cases e)
      case (HTTPException st d)
      with Inl sound_fetch_tree[of env owner rp] have "400 \<le> st"
        unfolding sound_def by blast
      with Some a Inl HTTPException show ?thesis
        by (simp add: get_repo_cases returns_def)
    qed (use Some a Inl in \<open>simp_all add: get_repo_cases returns_def\<close>)
  qed
qed

lemma select_blobs_counts:
  "select_blobs ts = Inr bs \<Longrightarrow>
     length (filter (\<lambda>b. snd b = JStr ''blob'') bs) = length (filter (entry_has_type ''blob'') ts)
     \<and> length (filter (\<lambda>b. snd b = JStr ''tree'') bs) = length (filter (entry_has_type ''tree'') ts)
     \<and> (\<forall>b \<in> set bs. snd b = JStr ''blob'' \<or> snd b = JStr ''tree'')"
proof (induction ts arbitrary: bs)
  case Nil
  then show ?case by simp
next
  case (Cons t ts)
  show ?case
  proof (cases "subscript t ''type''")
    case (Inl e)
    with Cons.prems show ?thesis by simp
  next
    case (Inr ty)
    show ?thesis
    proof (cases "blob_or_tree ty")
      case False
      with Inr Cons.prems have "select_blobs ts = Inr bs" by simp
      from Cons.IH[OF this] False Inr show ?thesis
        by (auto simp: entry_has_type_def blob_or_tree_def)
    next
      case True
      with Inr Cons.prems obtain pa bs' where bs: "bs = (pa, ty) # bs'" "select_blobs ts = Inr bs'"
        by (auto split: sum.splits)
      from Cons.IH[OF bs(2)] True Inr bs(1) show ?thesis
        by (auto simp: entry_has_type_def blob_or_tree_def)
    qed
  qed
qed

lemma length_two_kinds:
  "\<forall>b \<in> set bs. P b \<or> Q b \<Longrightarrow> \<forall>b \<in> set bs. \<not> (P b \<and> Q b)
    \<Longrightarrow> length bs = length (filter P bs) + length (filter Q bs)"
  by (induction bs) auto

lemma to_items_counts:
  "to_items bs = Inr its \<Longrightarrow>
     length (filter is_blob its) = length (filter (\<lambda>b. snd b = JStr ''blob'') bs)"
proof (induction bs arbitrary: its rule: to_items.induct)
  case 1
  then show ?case by simp
next
  case (2 pa ty bs)
  then show ?case
    by (auto simp: is_blob_def split: sum.splits json.splits)
qed simp_all

lemma count_files_set_summary [simp]: "count_files (set_summary t v) = count_files t"
  by (cases t) (simp add: set_summary_def)

lemma collect_Inr_all2:
  "collect rs = Inr xs \<Longrightarrow> list_all2 (\<lambda>r x. r = Inr x) rs xs"
proof (induction rs arbitrary: xs rule: collect.induct)
  case 1
  then show ?case by simp
next
  case (2 e rs)
  then show ?case by simp
next
  case (3 x rs)
  then show ?case by (cases "collect rs") auto
qed

lemma gen_count_files:
  "snd (generate_summaries env t owner rp sha) = Inr t' \<Longrightarrow> count_files t' = count_files t"
proof (induction t arbitrary: t')
  case (Node n cs p f s)
  show ?case
  proof (cases "get_isFile (Node n cs p f s)")
    case True
    from Node.prems show ?thesis
      unfolding gen_file[OF True] snd_bind_io
      by (auto simp: return_io_def snd_bind_io split: sum.splits option.splits if_splits)
  next
    case False
    from Node.prems obtain cs' where cs': "collect (map (\<lambda>c. snd (generate_summaries env c owner rp sha)) cs) = Inr cs'"
      and t': "t' = Node n cs' p f s"
      unfolding gen_dir[OF False] snd_bind_io
      by (auto simp: gather_def return_io_def comp_def split: sum.splits)
    from collect_Inr_all2[OF cs']
    have "list_all2 (\<lambda>c c'. snd (generate_summaries env c owner rp sha) = Inr c') cs cs'"
      by (simp add: list_all2_map1)
    then have len: "length cs = length cs'"
      and nth: "\<And>i. i < length cs \<Longrightarrow> snd (generate_summaries env (cs ! i) owner rp sha) = Inr (cs' ! i)"
      by (simp_all add: list_all2_conv_all_nth)
    have "map count_files cs' = map count_files cs"
    proof (rule nth_equalityI)
      show "length (map count_files cs') = length (map count_files cs)"
        using len by simp
    next
      fix i assume "i < length (map count_files cs')"
      with len have i: "i < length cs" by simp
      from Node.IH[OF nth_mem[OF i] nth[OF i]] i len
      show "map count_files cs' ! i = map count_files cs ! i" by simp
    qed
    with t' False show ?thesis by simp
  qed
qed


lemma summarize_tree_fileCount:
  assumes "snd (summarize_tree env owner rp sha tree_resp) = Inr res"
  shows "\<exists>listing entries.
      dict_get tree_resp ''tree'' (JArr []) = Inr listing \<and> iterate listing = Inr entries
      \<and> fileCount res = length (filter (entry_has_type ''blob'') entries)
                          + length (filter (entry_has_type ''tree'') entries)
      \<and> count_files (tree res) \<le> length (filter (entry_has_type ''blob'') entries)"
proof -
  from assms obtain listing entries blobs items root where
    1: "dict_get tree_resp ''tree'' (JArr []) = Inr listing" and
    2: "iterate listing = Inr entries" and
    3: "select_blobs entries = Inr blobs" and
    4: "to_items blobs = Inr items" and
    5: "snd (generate_summaries env (build_hierarchy items) owner rp sha) = Inr root" and
    6: "res = \<lparr>tree = sort_tree root, summaries = collect_summaries env (sort_tree root),
              repo = owner @ ''/'' @ rp, fileCount = length blobs\<rparr>"
    unfolding summarize_tree_def bind_lift_io
    by (auto simp: snd_bind_io return_io_def split: sum.splits)
  from select_blobs_counts[OF 3]
  have b: "length (filter (\<lambda>b. snd b = JStr ''blob'') blobs) = length (filter (entry_has_type ''blob'') entries)"
    and t: "length (filter (\<lambda>b. snd b = JStr ''tree'') blobs) = length (filter (entry_has_type ''tree'') entries)"
    and k: "\<forall>b \<in> set blobs. snd b = JStr ''blob'' \<or> snd b = JStr ''tree''"
    by simp_all
  have "length blobs = length (filter (\<lambda>b. snd b = JStr ''blob'') blobs)
      + length (filter (\<lambda>b. snd b = JStr ''tree'') blobs)"
    by (rule length_two_kinds[OF k]) auto
  with b t 6 have fc: "fileCount res = length (filter (entry_has_type ''blob'') entries)
                          + length (filter (entry_has_type ''tree'') entries)"
    by simp
  have "count_files (tree res) = count_files (build_hierarchy items)"
    using gen_count_files[OF 5] 6 by simp
  also have "\<dots> \<le> length (filter is_blob items)"
    by (rule count_files_build)
  also have "\<dots> = length (filter (entry_has_type ''blob'') entries)"
    using to_items_counts[OF 4] b by simp
  finally show ?thesis using 1 2 fc by blast
qed

lemma fetch_json_Inr:
  "snd (fetch_json env u) = Inr v \<Longrightarrow>
     \<exists>response. http_get env u = Inr response \<and> json_loads env (resp_text response) = Some v"
  by (auto simp: fetch_json_def split: sum.splits if_splits option.splits)

lemma fetch_tree_Inr:
  assumes "snd (fetch_tree env owner rp) = Inr res"
  shows "\<exists>tree_sha response tree_resp.
      http_get env (api @ owner @ ''/'' @ rp @ ''/git/trees/'' @ format_value env tree_sha
                     @ ''?recursive=1'') = Inr response
      \<and> json_loads env (resp_text response) = Some tree_resp
      \<and> snd (summarize_tree env owner rp tree_sha tree_resp) = Inr res"
proof -
  from assms obtain tree_sha tree_resp where
    1: "snd (fetch_json env (api @ owner @ ''/'' @ rp @ ''/git/trees/'' @ format_value env tree_sha
                     @ ''?recursive=1'')) = Inr tree_resp" and
    2: "snd (summarize_tree env owner rp tree_sha tree_resp) = Inr res"
    unfolding fetch_tree_def bind_lift_io
    by (auto simp: snd_bind_io split: sum.splits)
  from fetch_json_Inr[OF 1] 2 show ?thesis by blast
qed


section \<open>The URL parser, the endpoint and the summaries\<close>

text \<open>
  C2. The claim fails on the code at a repository name with \<open>.git\<close> inside: the code
  removes every occurrence of \<open>.git\<close> from the matched name, not only a trailing one, so
  the well-formed URL of the repository \<open>user.github.io\<close> of \<open>user\<close> is parsed to
  the repository \<open>userhub.io\<close>.
\<close>

theorem parse_github_url_internal_git:
  "parse_github_url ''https://github.com/user/user.github.io'' = Some (''user'', ''userhub.io'')
   \<and> parse_github_url ''git@github.com:user/user.github.io.git'' = Some (''user'', ''userhub.io'')
   \<and> parse_github_url ''https://github.com/foo/bar.git'' = Some (''foo'', ''bar'')"
  by code_simp






text \<open>
  C7. For a file node whose raw-content fetch is answered with a status other than 200,
  \<open>fetch_text\<close> returns \<open>None\<close>; for such a node, and for one whose fetch is answered
  with an empty body, \<open>generate_summaries\<close> makes the one call \<open>fetch_text\<close> and no call
  of the LLM client, and returns the node with the summary
  \<open>Could not fetch file content.\<close>; and as a child of a directory node the node changes
  nothing for its siblings: the directory's outcome is the one without the node (the same
  exception, or the same summarized siblings) with the summarized node put at its place.
\<close>

theorem fetch_failure_gives_placeholder:
  assumes "get_isFile nd"
    and "http_get env (raw_url env owner rp sha nd) = Inr response"
    and "resp_status response \<noteq> 200 \<or> resp_text response = []"
  shows "(resp_status response \<noteq> 200 \<longrightarrow>
            snd (fetch_text env (raw_url env owner rp sha nd)) = Inr None)
    \<and> generate_summaries env nd owner rp sha =
        ([FetchText (raw_url env owner rp sha nd)],
         Inr (set_summary nd (JStr ''Could not fetch file content.'')))
    \<and> (f \<noteq> Some True \<longrightarrow>
        snd (generate_summaries env (Node n (xs @ nd # ys) p f s) owner rp sha) =
          (case snd (generate_summaries env (Node n (xs @ ys) p f s) owner rp sha) of
             Inl e \<Rightarrow> Inl e
           | Inr d \<Rightarrow>
               Inr (Node n (take (length xs) (children d)
                       @ set_summary nd (JStr ''Could not fetch file content.'')
                       # drop (length xs) (children d))
                     p f s)))"
proof -
  have 1: "resp_status response \<noteq> 200 \<longrightarrow>
      snd (fetch_text env (raw_url env owner rp sha nd)) = Inr None"
    using assms(2) by (simp add: fetch_text_def)
  have 2: "generate_summaries env nd owner rp sha =
        ([FetchText (raw_url env owner rp sha nd)],
         Inr (set_summary nd (JStr fetch_failed_summary)))"
    using assms by (auto simp: gen_file fetch_text_def bind_io_def return_io_def)
  have 3: "snd (generate_summaries env (Node n (xs @ nd # ys) p f s) owner rp sha) =
          (case snd (generate_summaries env (Node n (xs @ ys) p f s) owner rp sha) of
             Inl e \<Rightarrow> Inl e
           | Inr d \<Rightarrow>
               Inr (Node n (take (length xs) (children d)
                       @ set_summary nd (JStr fetch_failed_summary) # drop (length xs) (children d))
                     p f s))" if "f \<noteq> Some True"
  proof -
    from that have nf: "\<not> get_isFile (Node n cs p f s)" for cs
      by simp
    show ?thesis
      by (simp add: gen_dir[OF nf] snd_bind_io gather_def 2 collect_insert return_io_def
          split: sum.splits)
  qed
  from 1 2 3 show ?thesis
    unfolding fetch_failed_summary_def by blast
qed

theorem fetch_failure_gives_placeholder_witness:
  "get_isFile (Node ''README.md'' [] ''README.md'' (Some True) None)
   \<and> http_get (stub_env \<lparr>resp_status = 404, resp_text = ''gone''\<rparr>)
        ''https://raw.githubusercontent.com/foo/bar/t1/README.md''
       = Inr \<lparr>resp_status = 404, resp_text = ''gone''\<rparr>
   \<and> generate_summaries (stub_env \<lparr>resp_status = 404, resp_text = ''gone''\<rparr>)
        (Node ''README.md'' [] ''README.md'' (Some True) None) ''foo'' ''bar'' (JStr ''t1'')
       = ([FetchText ''https://raw.githubusercontent.com/foo/bar/t1/README.md''],
          Inr (Node ''README.md'' [] ''README.md'' (Some True)
                 (Some (JStr ''Could not fetch file content.''))))"
proof -
  let ?env = "stub_env \<lparr>resp_status = 404, resp_text = ''gone''\<rparr>"
  let ?nd = "Node ''README.md'' [] ''README.md'' (Some True) None"
  have u: "raw_url ?env ''foo'' ''bar'' (JStr ''t1'') ?nd
      = ''https://raw.githubusercontent.com/foo/bar/t1/README.md''"
    by code_simp
  have 1: "get_isFile ?nd"
    by code_simp
  have "http_get ?env ''https://raw.githubusercontent.com/foo/bar/t1/README.md''
      = Inr \<lparr>resp_status = 404, resp_text = ''gone''\<rparr>"
    by code_simp
  then have 2: "http_get ?env (raw_url ?env ''foo'' ''bar'' (JStr ''t1'') ?nd)
      = Inr \<lparr>resp_status = 404, resp_text = ''gone''\<rparr>"
    by (simp only: u)
  have 3: "resp_status \<lparr>resp_status = 404, resp_text = ''gone''\<rparr> \<noteq> 200
      \<or> resp_text \<lparr>resp_status = 404, resp_text = ''gone''\<rparr> = []"
    by simp
  from fetch_failure_gives_placeholder[OF 1 2 3]
  have "generate_summaries ?env ?nd ''foo'' ''bar'' (JStr ''t1'') =
        ([FetchText (raw_url ?env ''foo'' ''bar'' (JStr ''t1'') ?nd)],
         Inr (set_summary ?nd (JStr ''Could not fetch file content.'')))"
    by blast
  then have "generate_summaries ?env ?nd ''foo'' ''bar'' (JStr ''t1'')
       = ([FetchText ''https://raw.githubusercontent.com/foo/bar/t1/README.md''],
          Inr (Node ''README.md'' [] ''README.md'' (Some True)
                 (Some (JStr ''Could not fetch file content.''))))"
    by (simp only: u) (simp add: set_summary_def)
  with 1 2 u show ?thesis by simp
qed

text \<open>
  C9. When \<open>GROQ_API_KEY\<close> is unset (or empty), \<open>get_groq_response\<close> returns, for
  every message list, the fixed string \<open>GROQ API key not configured (server).\<close>, which
  is not empty; it does not raise, and it makes no network call: its log is empty.
\<close>

theorem get_groq_response_without_key:
  "GROQ_API_KEY env = None \<or> GROQ_API_KEY env = Some [] \<Longrightarrow>
     get_groq_response env messages = ([], Inr (JStr ''GROQ API key not configured (server).''))
     \<and> ''GROQ API key not configured (server).'' \<noteq> []"
  by (auto simp: get_groq_response_def return_io_def groq_sentinel_def)

theorem get_groq_response_without_key_witness:
  "GROQ_API_KEY (stub_env \<lparr>resp_status = 200, resp_text = ''x''\<rparr>) = None
   \<and> get_groq_response (stub_env \<lparr>resp_status = 200, resp_text = ''x''\<rparr>)
        [\<lparr>role = ''user'', content = ''hello''\<rparr>]
      = ([], Inr (JStr ''GROQ API key not configured (server).''))"
proof -
  have h: "GROQ_API_KEY (stub_env \<lparr>resp_status = 200, resp_text = ''x''\<rparr>) = None"
    by (simp add: stub_env_def)
  then have "GROQ_API_KEY (stub_env \<lparr>resp_status = 200, resp_text = ''x''\<rparr>) = None
      \<or> GROQ_API_KEY (stub_env \<lparr>resp_status = 200, resp_text = ''x''\<rparr>) = Some []"
    by simp
  from get_groq_response_without_key[OF this] h show ?thesis by blast
qed

lemma length_filter_either:
  "\<forall>x \<in> set xs. \<not> (P x \<and> Q x) \<Longrightarrow>
     length (filter (\<lambda>x. P x \<or> Q x) xs) = length (filter P xs) + length (filter Q xs)"
  by (induction xs) auto



section \<open>Properties of the tasks\<close>

lemma in_flight_update:
  "i < length (phases s) \<Longrightarrow>
   in_flight (move s i ph fr) + (if phases s ! i = Fetching then 1 else 0)
     = in_flight s + (if ph = Fetching then 1 else 0)"
proof -
  have "i < length xs \<Longrightarrow>
     length (filter (\<lambda>ph. ph = Fetching) (xs[i := ph])) + (if xs ! i = Fetching then 1 else 0)
     = length (filter (\<lambda>ph. ph = Fetching) xs) + (if ph = Fetching then 1 else 0)" for xs :: "phase list"
  proof (induction xs arbitrary: i)
    case Nil
    then show ?case by simp
  next
    case (Cons x xs)
    show ?case
    proof (cases i)
      case 0
      then show ?thesis by simp
    next
      case (Suc j)
      with Cons.prems have "j < length xs" by simp
      from Cons.IH[OF this] Suc show ?thesis
        by (simp split: if_splits)
    qed
  qed
  then show "i < length (phases s) \<Longrightarrow> ?thesis"
    by (simp add: in_flight_def move_def)
qed

lemma free_move [simp]: "free (move s i ph fr) = fr"
  by (simp add: move_def)

lemma step_slots: "step s s' \<Longrightarrow> free s + in_flight s = c \<Longrightarrow> free s' + in_flight s' = c"
proof (induction rule: step.induct)
  case (acquire i s)
  with in_flight_update[of i s Fetching "free s - 1"] show ?case by simp
next
  case (fetched_text i s)
  with in_flight_update[of i s Summarizing "free s + 1"] show ?case by simp
next
  case (fetched_nothing i s)
  with in_flight_update[of i s Summarized "free s + 1"] show ?case by simp
next
  case (fetch_raised i s)
  with in_flight_update[of i s Failed "free s + 1"] show ?case by simp
next
  case (llm_returned i s)
  with in_flight_update[of i s Summarized "free s"] show ?case by simp
next
  case (llm_raised i s)
  with in_flight_update[of i s Failed "free s"] show ?case by simp
qed

lemma in_flight_start [simp]: "in_flight (start c n) = 0"
  by (induction n) (simp_all add: in_flight_def start_def)

lemma free_start [simp]: "free (start c n) = c"
  by (simp add: start_def)

lemma reachable_slots:
  "step\<^sup>*\<^sup>* (start c n) s \<Longrightarrow> free s + in_flight s = c"
  by (induction rule: rtranclp_induct) (auto dest: step_slots)

text \<open>
  C6. From the state in which \<open>gather\<close> has started any number \<open>n\<close> of file
  coroutines on a semaphore of capacity 6, in every state the system reaches at most 6
  coroutines are in \<open>fetch_text\<close>; and the slots taken are exactly as many as the
  coroutines in \<open>fetch_text\<close>, so a coroutine in \<open>get_groq_response\<close> holds no slot:
  it gave its slot back when it left \<open>async with semaphore\<close>.
\<close>

theorem semaphore_bounds_fetches:
  "step\<^sup>*\<^sup>* (start capacity n) s \<Longrightarrow> in_flight s \<le> 6 \<and> free s + in_flight s = 6"
  using reachable_slots[of capacity n s] by (simp add: capacity_def)

theorem semaphore_bounds_fetches_witness:
  "step\<^sup>*\<^sup>* (start capacity 7)
      \<lparr>free = 5, phases = [Summarizing, Fetching, Unvisited, Unvisited, Unvisited, Unvisited, Unvisited]\<rparr>
   \<and> in_flight
      \<lparr>free = 5, phases = [Summarizing, Fetching, Unvisited, Unvisited, Unvisited, Unvisited, Unvisited]\<rparr>
      \<le> 6"
proof -
  let ?s1 = "\<lparr>free = 5, phases = [Fetching, Unvisited, Unvisited, Unvisited, Unvisited, Unvisited, Unvisited]\<rparr>"
  let ?s2 = "\<lparr>free = 6, phases = [Summarizing, Unvisited, Unvisited, Unvisited, Unvisited, Unvisited, Unvisited]\<rparr>"
  let ?s3 = "\<lparr>free = 5, phases = [Summarizing, Fetching, Unvisited, Unvisited, Unvisited, Unvisited, Unvisited]\<rparr>"
  have 1: "step (start capacity 7) ?s1"
    using step.acquire[of 0 "start capacity 7"]
    by (simp add: start_def capacity_def move_def eval_nat_numeral)
  have 2: "step ?s1 ?s2"
    using step.fetched_text[of 0 ?s1] by (simp add: move_def)
  have 3: "step ?s2 ?s3"
    using step.acquire[of 1 ?s2] by (simp add: move_def)
  from 1 2 3 have r: "step\<^sup>*\<^sup>* (start capacity 7) ?s3"
    by (meson rtranclp.rtrancl_into_rtrancl rtranclp.rtrancl_refl)
  from semaphore_bounds_fetches[OF r] r show ?thesis by blast
qed

end
